theory Spec2Isabelle
  imports Main "HOL-Library.Product_Lexorder"
begin

section \<open>Data model of \<open>minesweeper.py\<close>\<close>

text \<open>
  A cell is a Python tuple \<open>(i, j)\<close> of unbounded integers. A \<open>Sentence\<close> object has the
  four fields its constructor sets; \<open>Sentence(cells, count)\<close> copies the cell set
  (\<open>set(cells)\<close>), so no two sentences ever share a set object and a list of sentence
  values models the list of sentence objects. The fields \<open>mines\<close> and \<open>safe\<close> of a
  sentence are written but never read by the program.
\<close>

type_synonym cell = "int \<times> int"

record sentence =
  cells :: "cell set"
  count :: int
  s_mines :: "cell set"
  s_safe :: "cell set"

definition Sentence :: "cell set \<Rightarrow> int \<Rightarrow> sentence" where
  "Sentence cs n = \<lparr>cells = cs, count = n, s_mines = {}, s_safe = {}\<rparr>"

text \<open>\<open>Sentence.__eq__\<close>: the cell sets and the counts are compared, nothing else.\<close>

definition sentence_eq :: "sentence \<Rightarrow> sentence \<Rightarrow> bool" where
  "sentence_eq a b \<longleftrightarrow> cells a = cells b \<and> count a = count b"

text \<open>\<open>x in lst\<close> for a list of sentences goes through \<open>__eq__\<close>.\<close>

definition contains :: "sentence list \<Rightarrow> sentence \<Rightarrow> bool" where
  "contains K x \<longleftrightarrow> (\<exists>s \<in> set K. sentence_eq x s)"

definition known_mines :: "sentence \<Rightarrow> cell set" where
  "known_mines s =
     (if count s = int (card (cells s)) \<and> count s \<noteq> 0 then cells s else {})"

definition known_safes :: "sentence \<Rightarrow> cell set" where
  "known_safes s = (if count s = 0 then cells s else {})"

text \<open>
  \<open>set.remove\<close> raises \<open>KeyError\<close> on a missing element. The two sentence mutators are
  first written with that branch; \<open>sentence_mark_mine_py_ok\<close> and
  \<open>sentence_mark_safe_py_ok\<close> below show that the guard \<open>if cell in self.cells\<close> makes
  it unreachable, and the engine is then written over the error-free functions.
\<close>

datatype py_error = KeyError | IndexError

definition set_remove :: "cell set \<Rightarrow> cell \<Rightarrow> py_error + cell set" where
  "set_remove S c = (if c \<in> S then Inr (S - {c}) else Inl KeyError)"

definition sentence_mark_mine_py :: "sentence \<Rightarrow> cell \<Rightarrow> py_error + sentence" where
  "sentence_mark_mine_py s c =
     (if c \<in> cells s then
        (case set_remove (cells s) c of
           Inl e \<Rightarrow> Inl e
         | Inr cs \<Rightarrow> Inr (s\<lparr>s_mines := insert c (s_mines s), cells := cs, count := count s - 1\<rparr>))
      else Inr s)"

definition sentence_mark_safe_py :: "sentence \<Rightarrow> cell \<Rightarrow> py_error + sentence" where
  "sentence_mark_safe_py s c =
     (if c \<in> cells s then
        (case set_remove (cells s) c of
           Inl e \<Rightarrow> Inl e
         | Inr cs \<Rightarrow> Inr (s\<lparr>s_safe := insert c (s_safe s), cells := cs\<rparr>))
      else Inr s)"

definition sentence_mark_mine :: "sentence \<Rightarrow> cell \<Rightarrow> sentence" where
  "sentence_mark_mine s c =
     (if c \<in> cells s
      then s\<lparr>s_mines := insert c (s_mines s), cells := cells s - {c}, count := count s - 1\<rparr>
      else s)"

definition sentence_mark_safe :: "sentence \<Rightarrow> cell \<Rightarrow> sentence" where
  "sentence_mark_safe s c =
     (if c \<in> cells s
      then s\<lparr>s_safe := insert c (s_safe s), cells := cells s - {c}\<rparr>
      else s)"

record ai =
  height :: int
  width :: int
  moves_made :: "cell set"
  mines :: "cell set"
  safes :: "cell set"
  knowledge :: "sentence list"

definition init_ai :: "int \<Rightarrow> int \<Rightarrow> ai" where
  "init_ai h w = \<lparr>height = h, width = w, moves_made = {}, mines = {}, safes = {}, knowledge = []\<rparr>"

text \<open>\<open>MinesweeperAI.mark_mine\<close> and \<open>mark_safe\<close>: the global broadcast.\<close>

definition mark_mine :: "cell \<Rightarrow> ai \<Rightarrow> ai" where
  "mark_mine c st =
     st\<lparr>mines := insert c (mines st),
        knowledge := map (\<lambda>s. sentence_mark_mine s c) (knowledge st)\<rparr>"

definition mark_safe :: "cell \<Rightarrow> ai \<Rightarrow> ai" where
  "mark_safe c st =
     st\<lparr>safes := insert c (safes st),
        knowledge := map (\<lambda>s. sentence_mark_safe s c) (knowledge st)\<rparr>"

text \<open>
  A \<open>for\<close> loop over a Python set visits its elements in an order the program does not
  control. The loops of this program over a set only broadcast each element; the order
  is fixed here to the sorted one, and \<open>mark_mines_order\<close> and \<open>mark_safes_order\<close> show
  that every other order gives the same state.
\<close>

definition mark_mines :: "cell set \<Rightarrow> ai \<Rightarrow> ai" where
  "mark_mines S st = fold mark_mine (sorted_list_of_set S) st"

definition mark_safes :: "cell set \<Rightarrow> ai \<Rightarrow> ai" where
  "mark_safes S st = fold mark_safe (sorted_list_of_set S) st"

subsection \<open>\<open>add_knowledge\<close>: the new sentence\<close>

definition in_grid :: "ai \<Rightarrow> cell \<Rightarrow> bool" where
  "in_grid st c \<longleftrightarrow> 0 \<le> fst c \<and> fst c < height st \<and> 0 \<le> snd c \<and> snd c < width st"

text \<open>The two nested \<open>range\<close> loops around the cell, in the order they run.\<close>

definition around :: "cell \<Rightarrow> cell list" where
  "around c = concat (map (\<lambda>i. map (\<lambda>j. (i, j)) [snd c - 1, snd c, snd c + 1])
                          [fst c - 1, fst c, fst c + 1])"

text \<open>One iteration of the loop body; the loop state is \<open>(neighbors, count)\<close>.\<close>

definition neighbor_step :: "ai \<Rightarrow> cell \<Rightarrow> cell \<Rightarrow> cell set \<times> int \<Rightarrow> cell set \<times> int" where
  "neighbor_step st c p acc =
     (if p = c then acc
      else if in_grid st p then
        (if p \<notin> safes st \<and> p \<notin> mines st then (insert p (fst acc), snd acc)
         else if p \<in> mines st then (fst acc, snd acc - 1)
         else acc)
      else acc)"

definition neighbor_scan :: "ai \<Rightarrow> cell \<Rightarrow> int \<Rightarrow> cell set \<times> int" where
  "neighbor_scan st c n = fold (neighbor_step st c) (around c) ({}, n)"

text \<open>Lines 196 to 217: everything before the closure loop.\<close>

definition observe :: "ai \<Rightarrow> cell \<Rightarrow> int \<Rightarrow> ai" where
  "observe st c n =
     (let st1 = mark_safe c (st\<lparr>moves_made := insert c (moves_made st)\<rparr>);
          (nb, k) = neighbor_scan st1 c n;
          st2 = (if k = 0 then mark_safes nb st1 else st1);
          st3 = (if k = int (card nb) \<and> k > 0 then mark_mines nb st2 else st2)
      in st3\<lparr>knowledge := knowledge st3 @ [Sentence nb k]\<rparr>)"

subsection \<open>\<open>add_knowledge\<close>: the closure loop\<close>

text \<open>
  The first \<open>for\<close> loop of a pass walks the list by position; the sentences change under
  it, the length of the list does not. \<open>extract_at i\<close> is the body for the sentence at
  position \<open>i\<close>: \<open>known_safes\<close> is read after the mines of that sentence were broadcast.
\<close>

definition extract_at :: "nat \<Rightarrow> ai \<Rightarrow> ai" where
  "extract_at i st =
     (let s = knowledge st ! i;
          st1 = (if known_mines s \<noteq> {} then mark_mines (known_mines s) st else st);
          s' = knowledge st1 ! i
      in if known_safes s' \<noteq> {} then mark_safes (known_safes s') st1 else st1)"

definition extract_all :: "ai \<Rightarrow> ai" where
  "extract_all st = fold extract_at [0..<length (knowledge st)] st"

text \<open>
  The nested loops of subset resolution. The loop state is \<open>(newSentences,
  made_inference)\<close>; \<open>K\<close> is \<open>self.knowledge\<close>, which these loops do not change.
\<close>

definition infer_step ::
  "sentence list \<Rightarrow> sentence \<Rightarrow> sentence \<Rightarrow> sentence list \<times> bool \<Rightarrow> sentence list \<times> bool" where
  "infer_step K s1 s2 acc =
     (if \<not> sentence_eq s1 s2 \<and> cells s1 \<subseteq> cells s2 then
        (let inferred = Sentence (cells s2 - cells s1) (count s2 - count s1)
         in if \<not> contains K inferred \<and> \<not> contains (fst acc) inferred
            then (fst acc @ [inferred], True) else acc)
      else acc)"

definition infer_row ::
  "sentence list \<Rightarrow> sentence \<Rightarrow> sentence list \<times> bool \<Rightarrow> sentence list \<times> bool" where
  "infer_row K s1 acc = fold (infer_step K s1) K acc"

definition infer_all :: "sentence list \<Rightarrow> sentence list \<times> bool" where
  "infer_all K = fold (infer_row K) K ([], False)"

text \<open>One pass of the \<open>while\<close> body: the state after it and the flag it leaves.\<close>

definition closure_pass :: "ai \<Rightarrow> ai \<times> bool" where
  "closure_pass st =
     (let st1 = extract_all st;
          (new, made) = infer_all (knowledge st1)
      in (st1\<lparr>knowledge := knowledge st1 @ new\<rparr>, made))"

text \<open>
  \<open>made_inference\<close> starts as \<open>True\<close>, so the body runs at least once. The loop may run
  forever: not returning is the value \<open>None\<close>.
\<close>

partial_function (option) closure_loop :: "ai \<Rightarrow> ai option" where
  "closure_loop st =
     (case closure_pass st of (st', made) \<Rightarrow> if made then closure_loop st' else Some st')"

declare closure_loop.simps [code]

definition add_knowledge :: "ai \<Rightarrow> cell \<Rightarrow> int \<Rightarrow> ai option" where
  "add_knowledge st c n = closure_loop (observe st c n)"

text \<open>A sequence of observations, each on the state the previous call left.\<close>

fun add_all :: "ai \<Rightarrow> (cell \<times> int) list \<Rightarrow> ai option" where
  "add_all st [] = Some st"
| "add_all st ((c, n) # obs) =
     (case add_knowledge st c n of None \<Rightarrow> None | Some st' \<Rightarrow> add_all st' obs)"

subsection \<open>The two move queries\<close>

text \<open>
  \<open>make_safe_move\<close> returns the first cell of \<open>self.safes\<close>, in the iteration order of
  the set, that is not in \<open>moves_made\<close>. The order is a parameter of
  \<open>make_safe_move_in\<close>; \<open>make_safe_move\<close> fixes it to the sorted one.
\<close>

definition make_safe_move_in :: "cell list \<Rightarrow> ai \<Rightarrow> cell option" where
  "make_safe_move_in order st = find (\<lambda>c. c \<notin> moves_made st) order"

definition make_safe_move :: "ai \<Rightarrow> cell option" where
  "make_safe_move st = make_safe_move_in (sorted_list_of_set (safes st)) st"

text \<open>
  \<open>random.choice(seq)\<close> raises \<open>IndexError\<close> on an empty sequence and otherwise returns
  one of its elements; the random source is the number \<open>r\<close>.
\<close>

definition random_choice :: "nat \<Rightarrow> cell list \<Rightarrow> py_error + cell" where
  "random_choice r xs = (if xs = [] then Inl IndexError else Inr (xs ! (r mod length xs)))"

definition all_cells :: "ai \<Rightarrow> cell set" where
  "all_cells st =
     set (concat (map (\<lambda>i. map (\<lambda>j. (i, j)) [0..width st - 1]) [0..height st - 1]))"

definition available_moves :: "ai \<Rightarrow> cell set" where
  "available_moves st = all_cells st - moves_made st - mines st"

definition make_random_move :: "nat \<Rightarrow> ai \<Rightarrow> py_error + cell option" where
  "make_random_move r st =
     (if available_moves st \<noteq> {} then
        (case random_choice r (sorted_list_of_set (available_moves st)) of
           Inl e \<Rightarrow> Inl e
         | Inr c \<Rightarrow> Inr (Some c))
      else Inr None)"

text \<open>
  The two broadcasts with the \<open>KeyError\<close> of \<open>set.remove\<close> as a value: the loop over
  the sentences stops at the first error, as the exception would.
\<close>

fun map_err :: "('a \<Rightarrow> py_error + 'b) \<Rightarrow> 'a list \<Rightarrow> py_error + 'b list" where
  "map_err f [] = Inr []"
| "map_err f (x # xs) =
     (case f x of
        Inl e \<Rightarrow> Inl e
      | Inr y \<Rightarrow> (case map_err f xs of Inl e \<Rightarrow> Inl e | Inr ys \<Rightarrow> Inr (y # ys)))"

definition mark_mine_py :: "cell \<Rightarrow> ai \<Rightarrow> py_error + ai" where
  "mark_mine_py c st =
     (case map_err (\<lambda>s. sentence_mark_mine_py s c) (knowledge st) of
        Inl e \<Rightarrow> Inl e
      | Inr K \<Rightarrow> Inr (st\<lparr>mines := insert c (mines st), knowledge := K\<rparr>))"

definition mark_safe_py :: "cell \<Rightarrow> ai \<Rightarrow> py_error + ai" where
  "mark_safe_py c st =
     (case map_err (\<lambda>s. sentence_mark_safe_py s c) (knowledge st) of
        Inl e \<Rightarrow> Inl e
      | Inr K \<Rightarrow> Inr (st\<lparr>safes := insert c (safes st), knowledge := K\<rparr>))"

section \<open>Notions used in the statements\<close>

text \<open>
  A mine layout is the set \<open>M\<close> of cells that hold a mine. A sentence is truthful for a
  layout when its count is the number of layout mines among its cells; an engine state
  is sound for it when every held sentence is truthful, every confirmed mine is a mine
  and no confirmed safe cell is one.
\<close>

definition truthful :: "cell set \<Rightarrow> sentence \<Rightarrow> bool" where
  "truthful M s \<longleftrightarrow> finite (cells s) \<and> count s = int (card (cells s \<inter> M))"

definition sound :: "cell set \<Rightarrow> ai \<Rightarrow> bool" where
  "sound M st \<longleftrightarrow>
     (\<forall>s \<in> set (knowledge st). truthful M s) \<and> mines st \<subseteq> M \<and> safes st \<inter> M = {}"

text \<open>The neighbours of a cell inside the grid, as \<open>Minesweeper.nearby_mines\<close> counts them.\<close>

definition nbrs :: "ai \<Rightarrow> cell \<Rightarrow> cell set" where
  "nbrs st c = {p \<in> set (around c). p \<noteq> c \<and> in_grid st p}"

text \<open>
  An observation is honest for a layout when the opened cell is not a mine and the
  reported count is the number of mines among its neighbours in the grid.
\<close>

definition honest :: "cell set \<Rightarrow> ai \<Rightarrow> cell \<times> int \<Rightarrow> bool" where
  "honest M st obs \<longleftrightarrow> fst obs \<notin> M \<and> snd obs = int (card (nbrs st (fst obs) \<inter> M))"

text \<open>No cell of a held sentence is a confirmed mine or a confirmed safe cell.\<close>

definition purged :: "ai \<Rightarrow> bool" where
  "purged st \<longleftrightarrow> (\<forall>s \<in> set (knowledge st). cells s \<inter> (mines st \<union> safes st) = {})"

text \<open>
  The state \<open>observe\<close> hands to the closure loop: every sentence but the last is
  purged, and the last one is either purged too or was resolved as a whole by lines 209
  to 214, which leaves it with its cells and a count that the first pass will read as
  "all safe" or "all mines".
\<close>

definition pending :: "ai \<Rightarrow> bool" where
  "pending st \<longleftrightarrow>
     knowledge st \<noteq> [] \<and>
     (\<forall>s \<in> set (butlast (knowledge st)). cells s \<inter> (mines st \<union> safes st) = {}) \<and>
     (cells (last (knowledge st)) \<inter> (mines st \<union> safes st) = {} \<or>
      cells (last (knowledge st)) \<subseteq> mines st \<union> safes st \<and>
      finite (cells (last (knowledge st))) \<and>
      (count (last (knowledge st)) = 0 \<or>
       count (last (knowledge st)) = int (card (cells (last (knowledge st))))))"

text \<open>The effect of broadcasting every cell of a set on one sentence.\<close>

definition mines_out :: "cell set \<Rightarrow> sentence \<Rightarrow> sentence" where
  "mines_out S s =
     s\<lparr>s_mines := s_mines s \<union> (cells s \<inter> S), cells := cells s - S,
       count := count s - int (card (cells s \<inter> S))\<rparr>"

definition safes_out :: "cell set \<Rightarrow> sentence \<Rightarrow> sentence" where
  "safes_out S s = s\<lparr>s_safe := s_safe s \<union> (cells s \<inter> S), cells := cells s - S\<rparr>"

text \<open>A resolution of one cell, broadcast to the whole knowledge base.\<close>

datatype resolution = AsMine cell | AsSafe cell

fun resolve :: "resolution \<Rightarrow> ai \<Rightarrow> ai" where
  "resolve (AsMine c) st = mark_mine c st"
| "resolve (AsSafe c) st = mark_safe c st"

fun proven :: "cell set \<Rightarrow> resolution \<Rightarrow> bool" where
  "proven M (AsMine c) \<longleftrightarrow> c \<in> M"
| "proven M (AsSafe c) \<longleftrightarrow> c \<notin> M"

text \<open>Two held sentences over the same cells with different counts.\<close>

definition clash :: "sentence list \<Rightarrow> bool" where
  "clash K \<longleftrightarrow> (\<exists>a \<in> set K. \<exists>b \<in> set K. cells a = cells b \<and> count a \<noteq> count b)"

text \<open>The unresolved cells of a knowledge base and the cell sets it holds.\<close>

definition unresolved :: "sentence list \<Rightarrow> cell set" where
  "unresolved K = \<Union> (cells ` set K)"

definition shapes :: "sentence list \<Rightarrow> cell set set" where
  "shapes K = cells ` set K"

text \<open>
  A sentence that subset resolution derives from two held sentences and that is not yet
  held; and the loop invariant of the two nested loops: the flag is set exactly when a
  sentence was queued, and every queued sentence is derived.
\<close>

definition derived :: "sentence list \<Rightarrow> sentence \<Rightarrow> bool" where
  "derived K x \<longleftrightarrow>
     (\<exists>s1 \<in> set K. \<exists>s2 \<in> set K. \<not> sentence_eq s1 s2 \<and> cells s1 \<subseteq> cells s2 \<and>
        x = Sentence (cells s2 - cells s1) (count s2 - count s1)) \<and> \<not> contains K x"

definition acc_ok :: "sentence list \<Rightarrow> sentence list \<times> bool \<Rightarrow> bool" where
  "acc_ok K acc \<longleftrightarrow> (snd acc \<longleftrightarrow> fst acc \<noteq> []) \<and> (\<forall>x \<in> set (fst acc). derived K x)"

text \<open>Every subset pair of held sentences has its difference held.\<close>

definition saturated :: "sentence list \<Rightarrow> bool" where
  "saturated K \<longleftrightarrow>
     (\<forall>s1 \<in> set K. \<forall>s2 \<in> set K. \<not> sentence_eq s1 s2 \<and> cells s1 \<subseteq> cells s2 \<longrightarrow>
        contains K (Sentence (cells s2 - cells s1) (count s2 - count s1)))"

text \<open>The second state has the grid of the first.\<close>

definition same_grid :: "ai \<Rightarrow> ai \<Rightarrow> bool" where
  "same_grid st st' \<longleftrightarrow> height st' = height st \<and> width st' = width st"

text \<open>
  The confirmed mines and the confirmed safe cells are disjoint, and the last sentence
  is purged, or has the count 0 and only confirmed safe cells, or has another count and
  only confirmed mines: what lines 209 to 214 leave for the first pass.
\<close>

definition apart :: "ai \<Rightarrow> bool" where
  "apart st \<longleftrightarrow>
     mines st \<inter> safes st = {} \<and>
     (knowledge st = [] \<or>
      cells (last (knowledge st)) \<inter> (mines st \<union> safes st) = {} \<or>
      count (last (knowledge st)) = 0 \<and> cells (last (knowledge st)) \<subseteq> safes st \<or>
      count (last (knowledge st)) \<noteq> 0 \<and> cells (last (knowledge st)) \<subseteq> mines st)"

text \<open>No call of the sequence opens a cell that is a confirmed mine when it is made.\<close>

fun opens_no_mine :: "ai \<Rightarrow> (cell \<times> int) list \<Rightarrow> bool" where
  "opens_no_mine st [] \<longleftrightarrow> True"
| "opens_no_mine st ((c, n) # obs) \<longleftrightarrow>
     c \<notin> mines st \<and>
     (case add_knowledge st c n of None \<Rightarrow> True | Some st' \<Rightarrow> opens_no_mine st' obs)"

subsection \<open>States of the concrete runs\<close>

text \<open>
  A row of seven cells with one mine at \<open>(0, 2)\<close>; the cells \<open>(0, 1)\<close>, \<open>(0, 3)\<close> and
  \<open>(0, 5)\<close> are opened in this order. \<open>row7_entry\<close> is the state at the entry of the
  closure loop of the third call, \<open>row7_final\<close> the state that call returns, and
  \<open>row7_again\<close> the state one more run of the closure loop gives.
\<close>

definition row7_obs :: "(cell \<times> int) list" where
  "row7_obs = [((0, 1), 1), ((0, 3), 1), ((0, 5), 0)]"

definition row7_entry :: ai where
  "row7_entry =
     \<lparr>height = 1, width = 7, moves_made = {(0, 1), (0, 3), (0, 5)}, mines = {},
      safes = {(0, 1), (0, 3), (0, 4), (0, 5), (0, 6)},
      knowledge =
        [\<lparr>cells = {(0, 0), (0, 2)}, count = 1, s_mines = {}, s_safe = {}\<rparr>,
         \<lparr>cells = {(0, 2)}, count = 1, s_mines = {}, s_safe = {(0, 4)}\<rparr>,
         \<lparr>cells = {(0, 4), (0, 6)}, count = 0, s_mines = {}, s_safe = {}\<rparr>]\<rparr>"

definition row7_final :: ai where
  "row7_final =
     \<lparr>height = 1, width = 7, moves_made = {(0, 1), (0, 3), (0, 5)}, mines = {(0, 2)},
      safes = {(0, 1), (0, 3), (0, 4), (0, 5), (0, 6)},
      knowledge =
        [\<lparr>cells = {(0, 0)}, count = 0, s_mines = {(0, 2)}, s_safe = {}\<rparr>,
         \<lparr>cells = {}, count = 0, s_mines = {(0, 2)}, s_safe = {(0, 4)}\<rparr>,
         \<lparr>cells = {}, count = 0, s_mines = {}, s_safe = {(0, 4), (0, 6)}\<rparr>]\<rparr>"

definition row7_again :: ai where
  "row7_again =
     \<lparr>height = 1, width = 7, moves_made = {(0, 1), (0, 3), (0, 5)}, mines = {(0, 2)},
      safes = {(0, 0), (0, 1), (0, 3), (0, 4), (0, 5), (0, 6)},
      knowledge =
        [\<lparr>cells = {}, count = 0, s_mines = {(0, 2)}, s_safe = {(0, 0)}\<rparr>,
         \<lparr>cells = {}, count = 0, s_mines = {(0, 2)}, s_safe = {(0, 4)}\<rparr>,
         \<lparr>cells = {}, count = 0, s_mines = {}, s_safe = {(0, 4), (0, 6)}\<rparr>]\<rparr>"

text \<open>
  A grid of two rows and four columns with mines at \<open>(1, 0)\<close> and \<open>(1, 2)\<close>; the cells
  \<open>(1, 3)\<close>, \<open>(0, 0)\<close>, \<open>(0, 1)\<close> and \<open>(0, 2)\<close> are opened in this order.
  \<open>grid24_entry\<close> is the state at the entry of the closure loop of the fourth call,
  \<open>grid24_final\<close> the state that call returns.
\<close>

definition grid24_obs :: "(cell \<times> int) list" where
  "grid24_obs = [((1, 3), 1), ((0, 0), 1), ((0, 1), 2)]"

definition grid24_entry :: ai where
  "grid24_entry =
     \<lparr>height = 2, width = 4, moves_made = {(0, 0), (0, 1), (0, 2), (1, 3)}, mines = {},
      safes = {(0, 0), (0, 1), (0, 2), (0, 3), (1, 3)},
      knowledge =
        [\<lparr>cells = {(1, 2)}, count = 1, s_mines = {}, s_safe = {(0, 2), (0, 3)}\<rparr>,
         \<lparr>cells = {(1, 0), (1, 1)}, count = 1, s_mines = {}, s_safe = {(0, 1)}\<rparr>,
         \<lparr>cells = {(1, 0), (1, 1), (1, 2)}, count = 2, s_mines = {}, s_safe = {(0, 2)}\<rparr>,
         \<lparr>cells = {(1, 2)}, count = 1, s_mines = {}, s_safe = {(0, 2)}\<rparr>,
         \<lparr>cells = {}, count = 0, s_mines = {}, s_safe = {(0, 3)}\<rparr>,
         \<lparr>cells = {(1, 1), (1, 2)}, count = 1, s_mines = {}, s_safe = {}\<rparr>]\<rparr>"

definition grid24_final :: ai where
  "grid24_final =
     \<lparr>height = 2, width = 4, moves_made = {(0, 0), (0, 1), (0, 2), (1, 3)}, mines = {(1, 2)},
      safes = {(0, 0), (0, 1), (0, 2), (0, 3), (1, 1), (1, 3)},
      knowledge =
        [\<lparr>cells = {}, count = 0, s_mines = {(1, 2)}, s_safe = {(0, 2), (0, 3)}\<rparr>,
         \<lparr>cells = {(1, 0)}, count = 1, s_mines = {}, s_safe = {(0, 1), (1, 1)}\<rparr>,
         \<lparr>cells = {(1, 0)}, count = 1, s_mines = {(1, 2)}, s_safe = {(0, 2), (1, 1)}\<rparr>,
         \<lparr>cells = {}, count = 0, s_mines = {(1, 2)}, s_safe = {(0, 2)}\<rparr>,
         \<lparr>cells = {}, count = 0, s_mines = {}, s_safe = {(0, 3)}\<rparr>,
         \<lparr>cells = {}, count = 0, s_mines = {(1, 2)}, s_safe = {(1, 1)}\<rparr>]\<rparr>"

text \<open>The two sentences of the subset rule alone, with nothing resolved.\<close>

definition pair_alone :: ai where
  "pair_alone =
     \<lparr>height = 2, width = 2, moves_made = {}, mines = {}, safes = {},
      knowledge = [Sentence {(0, 0), (0, 1)} 1, Sentence {(0, 0), (0, 1), (1, 0)} 2]\<rparr>"

text \<open>
  A row of two cells; \<open>(0, 0)\<close> is opened with the count 1 and then \<open>(0, 1)\<close> with the
  count 0, which no mine layout allows. \<open>row2_final\<close> is the state the second call returns.
\<close>

definition row2_obs :: "(cell \<times> int) list" where
  "row2_obs = [((0, 0), 1), ((0, 1), 0)]"

definition row2_final :: ai where
  "row2_final =
     \<lparr>height = 1, width = 2, moves_made = {(0, 0), (0, 1)}, mines = {(0, 1)},
      safes = {(0, 0), (0, 1)},
      knowledge =
        [\<lparr>cells = {}, count = 0, s_mines = {(0, 1)}, s_safe = {}\<rparr>,
         \<lparr>cells = {}, count = 0, s_mines = {}, s_safe = {}\<rparr>]\<rparr>"

text \<open>A grid of one cell and the cell \<open>(5, 5)\<close> outside it.\<close>

definition far_final :: ai where
  "far_final =
     \<lparr>height = 1, width = 1, moves_made = {(5, 5)}, mines = {}, safes = {(5, 5)},
      knowledge = [\<lparr>cells = {}, count = 0, s_mines = {}, s_safe = {}\<rparr>]\<rparr>"

text \<open>
  A grid of three rows and three columns whose centre is opened with the count 1;
  \<open>grid33_once\<close> is the state that call returns. A grid of one cell that is opened with
  the count 1; \<open>cell1_once\<close> is the state that call returns.
\<close>

definition grid33_once :: ai where
  "grid33_once =
     \<lparr>height = 3, width = 3, moves_made = {(1, 1)}, mines = {}, safes = {(1, 1)},
      knowledge =
        [\<lparr>cells = {(0, 0), (0, 1), (0, 2), (1, 0), (1, 2), (2, 0), (2, 1), (2, 2)},
          count = 1, s_mines = {}, s_safe = {}\<rparr>]\<rparr>"

definition cell1_once :: ai where
  "cell1_once =
     \<lparr>height = 1, width = 1, moves_made = {(0, 0)}, mines = {}, safes = {(0, 0)},
      knowledge = [\<lparr>cells = {}, count = 1, s_mines = {}, s_safe = {}\<rparr>]\<rparr>"

text \<open>
  A grid of three rows and three columns; the corner \<open>(0, 0)\<close> is opened with the count
  1 and then the corner \<open>(0, 2)\<close> with the count 3. \<open>corner33_once\<close> is the state the
  first call returns, \<open>corner33_final\<close> the state the second call returns.
\<close>

definition corner33_obs :: "(cell \<times> int) list" where
  "corner33_obs = [((0, 0), 1), ((0, 2), 3)]"

definition corner33_once :: ai where
  "corner33_once =
     \<lparr>height = 3, width = 3, moves_made = {(0, 0)}, mines = {}, safes = {(0, 0)},
      knowledge = [\<lparr>cells = {(0, 1), (1, 0), (1, 1)}, count = 1, s_mines = {}, s_safe = {}\<rparr>]\<rparr>"

definition corner33_final :: ai where
  "corner33_final =
     \<lparr>height = 3, width = 3, moves_made = {(0, 0), (0, 2)}, mines = {(0, 1), (1, 1), (1, 2)},
      safes = {(0, 0), (0, 2)},
      knowledge =
        [\<lparr>cells = {(1, 0)}, count = - 1, s_mines = {(0, 1), (1, 1)}, s_safe = {}\<rparr>,
         \<lparr>cells = {}, count = 0, s_mines = {(0, 1), (1, 1), (1, 2)}, s_safe = {}\<rparr>]\<rparr>"






text \<open>
  The measure of the closure loop for truthful sentences: the number of unresolved
  cells, and then the number of sets of unresolved cells that no held sentence has.
\<close>

definition slack :: "sentence list \<Rightarrow> nat \<times> nat" where
  "slack K = (card (unresolved K), card (Pow (unresolved K) - shapes K))"

section \<open>The sentence operations\<close>

lemma sentence_mark_mine_py_ok: "sentence_mark_mine_py s c = Inr (sentence_mark_mine s c)"
  by (simp add: sentence_mark_mine_py_def sentence_mark_mine_def set_remove_def)

lemma sentence_mark_safe_py_ok: "sentence_mark_safe_py s c = Inr (sentence_mark_safe s c)"
  by (simp add: sentence_mark_safe_py_def sentence_mark_safe_def set_remove_def)

text \<open>
  C8. \<open>known_mines\<close> is the whole cell set when the count equals the number of cells and
  is not zero, and the empty set otherwise; \<open>known_safes\<close> is the whole cell set when the
  count is zero, and the empty set otherwise. So \<open>known_mines\<close> is non-empty exactly when
  \<open>count = |cells| > 0\<close>, and it is empty for the sentence with no cells and count 0.
\<close>

theorem known_cells_spec:
  "known_mines s = (if count s = int (card (cells s)) \<and> count s \<noteq> 0 then cells s else {}) \<and>
   known_safes s = (if count s = 0 then cells s else {}) \<and>
   (known_mines s \<noteq> {}) = (count s = int (card (cells s)) \<and> count s \<noteq> 0) \<and>
   (known_safes s \<noteq> {}) = (count s = 0 \<and> cells s \<noteq> {}) \<and>
   known_mines (Sentence {} 0) = {}"
  by (auto simp: known_mines_def known_safes_def Sentence_def)

section \<open>Concrete runs\<close>

text \<open>
  C1. The state \<open>add_knowledge\<close> returns is not always a fixed point of the closure
  loop. On the row of seven cells the only pass of the third call broadcasts cells (it
  confirms the mine \<open>(0, 2)\<close>) and adds no sentence, so the flag stays unset and the loop
  stops. The state returned holds the sentence \<open>{(0, 0)} = 0\<close> while \<open>(0, 0)\<close> is not
  a confirmed safe cell. Running the loop again changes the state: it confirms
  \<open>(0, 0)\<close> as safe.
\<close>

theorem closure_not_fixed_point:
  "map_option (\<lambda>st. observe st (0, 5) 0) (add_all (init_ai 1 7) (butlast row7_obs)) =
     Some row7_entry \<and>
   extract_all row7_entry \<noteq> row7_entry \<and>
   mines (extract_all row7_entry) \<noteq> mines row7_entry \<and>
   closure_pass row7_entry = (row7_final, False) \<and>
   add_all (init_ai 1 7) row7_obs = Some row7_final \<and>
   known_safes (knowledge row7_final ! 0) = {(0, 0)} \<and>
   (0, 0) \<notin> safes row7_final \<and>
   closure_loop row7_final = Some row7_again \<and>
   row7_again \<noteq> row7_final \<and>
   (0, 0) \<in> safes row7_again"
  by code_simp

text \<open>
  C4. On the grid of two rows and four columns, the closure loop of the fourth call
  starts with the sentences \<open>{(1, 1), (1, 2)} = 1\<close> and \<open>{(1, 0), (1, 1), (1, 2)} = 2\<close>
  both held, and the call returns without \<open>(1, 0)\<close> among the confirmed mines: the
  sentence \<open>{(1, 0)} = 1\<close> is held, and was reduced to that after the pass had visited it.
\<close>

theorem subset_pair_mine_not_confirmed:
  "map_option (\<lambda>st. observe st (0, 2) 1) (add_all (init_ai 2 4) grid24_obs) = Some grid24_entry \<and>
   contains (knowledge grid24_entry) (Sentence {(1, 1), (1, 2)} 1) \<and>
   contains (knowledge grid24_entry) (Sentence {(1, 0), (1, 1), (1, 2)} 2) \<and>
   closure_loop grid24_entry = Some grid24_final \<and>
   add_all (init_ai 2 4) (grid24_obs @ [((0, 2), 1)]) = Some grid24_final \<and>
   (1, 0) \<notin> mines grid24_final \<and>
   contains (knowledge grid24_final) (Sentence {(1, 0)} 1)"
  by code_simp

text \<open>With the two sentences alone the subset rule does confirm the third cell.\<close>

lemma subset_pair_alone_resolves:
  "map_option mines (closure_loop pair_alone) = Some {(1, 0)}"
  by code_simp

section \<open>The broadcast of a set of cells\<close>

lemma mines_out_step: "finite X \<Longrightarrow> mines_out X (sentence_mark_mine s x) = mines_out (insert x X) s"
proof (cases "x \<in> cells s")
  case False
  then have "cells s \<inter> insert x X = cells s \<inter> X" "cells s - insert x X = cells s - X" by auto
  with False show ?thesis by (simp add: mines_out_def sentence_mark_mine_def)
next
  case True
  assume fin: "finite X"
  let ?R = "(cells s - {x}) \<inter> X"
  have e: "cells s \<inter> insert x X = insert x ?R" using True by auto
  have "finite ?R" "x \<notin> ?R" using fin by auto
  then have c: "card (insert x ?R) = Suc (card ?R)" by simp
  have d: "cells s - {x} - X = cells s - insert x X" by auto
  show ?thesis using True
    by (simp add: mines_out_def sentence_mark_mine_def e c d)
qed

lemma safes_out_step: "safes_out X (sentence_mark_safe s x) = safes_out (insert x X) s"
proof (cases "x \<in> cells s")
  case False
  then have "cells s \<inter> insert x X = cells s \<inter> X" "cells s - insert x X = cells s - X" by auto
  with False show ?thesis by (simp add: safes_out_def sentence_mark_safe_def)
next
  case True
  have e: "cells s \<inter> insert x X = insert x ((cells s - {x}) \<inter> X)" using True by auto
  have d: "cells s - {x} - X = cells s - insert x X" by auto
  show ?thesis using True
    by (simp add: safes_out_def sentence_mark_safe_def e d)
qed

lemma mines_out_empty: "mines_out {} s = s"
  by (simp add: mines_out_def)

lemma safes_out_empty: "safes_out {} s = s"
  by (simp add: safes_out_def)

lemma fold_mark_mine:
  "fold mark_mine xs st =
     st\<lparr>mines := mines st \<union> set xs, knowledge := map (mines_out (set xs)) (knowledge st)\<rparr>"
proof (induction xs arbitrary: st)
  case Nil
  show ?case by (simp add: mines_out_empty)
next
  case (Cons x xs)
  have "fold mark_mine (x # xs) st = fold mark_mine xs (mark_mine x st)" by simp
  also have "\<dots> = (mark_mine x st)\<lparr>mines := mines (mark_mine x st) \<union> set xs,
      knowledge := map (mines_out (set xs)) (knowledge (mark_mine x st))\<rparr>"
    by (rule Cons.IH)
  also have "\<dots> = st\<lparr>mines := mines st \<union> set (x # xs),
      knowledge := map (mines_out (set (x # xs))) (knowledge st)\<rparr>"
    by (simp add: mark_mine_def mines_out_step)
  finally show ?case .
qed

lemma fold_mark_safe:
  "fold mark_safe xs st =
     st\<lparr>safes := safes st \<union> set xs, knowledge := map (safes_out (set xs)) (knowledge st)\<rparr>"
proof (induction xs arbitrary: st)
  case Nil
  show ?case by (simp add: safes_out_empty)
next
  case (Cons x xs)
  have "fold mark_safe (x # xs) st = fold mark_safe xs (mark_safe x st)" by simp
  also have "\<dots> = (mark_safe x st)\<lparr>safes := safes (mark_safe x st) \<union> set xs,
      knowledge := map (safes_out (set xs)) (knowledge (mark_safe x st))\<rparr>"
    by (rule Cons.IH)
  also have "\<dots> = st\<lparr>safes := safes st \<union> set (x # xs),
      knowledge := map (safes_out (set (x # xs))) (knowledge st)\<rparr>"
    by (simp add: mark_safe_def safes_out_step)
  finally show ?case .
qed

text \<open>The order in which the cells of a set are broadcast does not matter.\<close>

lemma mark_mines_order: "set xs = set ys \<Longrightarrow> fold mark_mine xs st = fold mark_mine ys st"
  by (simp add: fold_mark_mine)

lemma mark_safes_order: "set xs = set ys \<Longrightarrow> fold mark_safe xs st = fold mark_safe ys st"
  by (simp add: fold_mark_safe)

lemma mark_mines_eq:
  "finite S \<Longrightarrow> mark_mines S st =
     st\<lparr>mines := mines st \<union> S, knowledge := map (mines_out S) (knowledge st)\<rparr>"
  by (simp add: mark_mines_def fold_mark_mine)

lemma mark_safes_eq:
  "finite S \<Longrightarrow> mark_safes S st =
     st\<lparr>safes := safes st \<union> S, knowledge := map (safes_out S) (knowledge st)\<rparr>"
  by (simp add: mark_safes_def fold_mark_safe)

lemma mark_safes_infinite: "\<not> finite S \<Longrightarrow> mark_safes S st = st"
  by (simp add: mark_safes_def)

lemma known_mines_finite: "finite (known_mines s)"
  by (cases "finite (cells s)") (auto simp: known_mines_def)

section \<open>The first loop of a pass\<close>

lemma mark_mines_empty: "mark_mines {} st = st"
  by (simp add: mark_mines_def)

lemma mark_safes_empty: "mark_safes {} st = st"
  by (simp add: mark_safes_def)

lemma length_mark_mines: "length (knowledge (mark_mines S st)) = length (knowledge st)"
  by (simp add: mark_mines_def fold_mark_mine)

lemma length_mark_safes: "length (knowledge (mark_safes S st)) = length (knowledge st)"
  by (simp add: mark_safes_def fold_mark_safe)

lemma extract_at_alt:
  "extract_at i st =
     mark_safes (known_safes (knowledge (mark_mines (known_mines (knowledge st ! i)) st) ! i))
       (mark_mines (known_mines (knowledge st ! i)) st)"
  by (simp add: extract_at_def Let_def mark_mines_empty mark_safes_empty)

lemma length_extract_at: "length (knowledge (extract_at i st)) = length (knowledge st)"
  by (simp add: extract_at_alt length_mark_mines length_mark_safes)

lemma fold_extract_at_preserves:
  assumes mines: "\<And>st i. P st \<Longrightarrow> i \<in> I \<Longrightarrow> i < length (knowledge st) \<Longrightarrow>
                    P (mark_mines (known_mines (knowledge st ! i)) st)"
      and safes: "\<And>st i. P st \<Longrightarrow> i \<in> I \<Longrightarrow> i < length (knowledge st) \<Longrightarrow>
                    P (mark_safes (known_safes (knowledge st ! i)) st)"
  shows "P st \<Longrightarrow> set js \<subseteq> I \<Longrightarrow> \<forall>j \<in> set js. j < length (knowledge st) \<Longrightarrow>
         P (fold extract_at js st) \<and>
         length (knowledge (fold extract_at js st)) = length (knowledge st)"
proof (induction js arbitrary: st)
  case Nil
  then show ?case by simp
next
  case (Cons j js)
  let ?st1 = "mark_mines (known_mines (knowledge st ! j)) st"
  have j: "j \<in> I" "j < length (knowledge st)" using Cons.prems by auto
  have p1: "P ?st1" using mines Cons.prems(1) j by blast
  have "P (mark_safes (known_safes (knowledge ?st1 ! j)) ?st1)"
    using safes [OF p1 j(1)] j(2) by (simp add: length_mark_mines)
  then have p2: "P (extract_at j st)" by (simp add: extract_at_alt)
  have "P (fold extract_at js (extract_at j st)) \<and>
        length (knowledge (fold extract_at js (extract_at j st))) =
        length (knowledge (extract_at j st))"
    using Cons.prems by (intro Cons.IH p2) (auto simp: length_extract_at)
  then show ?case by (simp add: length_extract_at)
qed

lemma extract_all_preserves:
  assumes "P st"
      and "\<And>st s. P st \<Longrightarrow> s \<in> set (knowledge st) \<Longrightarrow> P (mark_mines (known_mines s) st)"
      and "\<And>st s. P st \<Longrightarrow> s \<in> set (knowledge st) \<Longrightarrow> P (mark_safes (known_safes s) st)"
  shows "P (extract_all st)"
proof -
  have "P (fold extract_at [0..<length (knowledge st)] st) \<and>
        length (knowledge (fold extract_at [0..<length (knowledge st)] st)) = length (knowledge st)"
    by (rule fold_extract_at_preserves [where P = P and I = UNIV])
       (use assms in \<open>auto\<close>)
  then show ?thesis by (simp add: extract_all_def)
qed

lemma length_extract_all: "length (knowledge (extract_all st)) = length (knowledge st)"
proof -
  have "True \<and> length (knowledge (fold extract_at [0..<length (knowledge st)] st)) = length (knowledge st)"
    by (rule fold_extract_at_preserves [where P = "\<lambda>_. True" and I = UNIV]) auto
  then show ?thesis by (simp add: extract_all_def)
qed

section \<open>Soundness for a mine layout\<close>

lemma truthful_known_mines: "truthful M s \<Longrightarrow> known_mines s \<subseteq> M"
proof -
  assume t: "truthful M s"
  show ?thesis
  proof (cases "count s = int (card (cells s)) \<and> count s \<noteq> 0")
    case True
    with t have "card (cells s \<inter> M) = card (cells s)" "finite (cells s)" by (auto simp: truthful_def)
    then have "cells s \<inter> M = cells s" by (intro card_subset_eq) auto
    then show ?thesis using True by (auto simp: known_mines_def)
  next
    case False
    then show ?thesis by (auto simp: known_mines_def)
  qed
qed

lemma truthful_known_safes: "truthful M s \<Longrightarrow> known_safes s \<inter> M = {}"
  by (auto simp: truthful_def known_safes_def)

lemma truthful_known_safes_finite: "truthful M s \<Longrightarrow> finite (known_safes s)"
  by (auto simp: truthful_def known_safes_def)

lemma truthful_mines_out:
  assumes "truthful M s" "A \<subseteq> M"
  shows "truthful M (mines_out A s)"
proof -
  have fin: "finite (cells s)" and cnt: "count s = int (card (cells s \<inter> M))"
    using assms by (auto simp: truthful_def)
  have e: "(cells s - A) \<inter> M = (cells s \<inter> M) - (cells s \<inter> A)" using assms by auto
  have sub: "cells s \<inter> A \<subseteq> cells s \<inter> M" using assms by auto
  have "card ((cells s - A) \<inter> M) = card (cells s \<inter> M) - card (cells s \<inter> A)"
    unfolding e using fin sub by (intro card_Diff_subset) auto
  moreover have "card (cells s \<inter> A) \<le> card (cells s \<inter> M)"
    using sub fin by (intro card_mono) auto
  ultimately show ?thesis using fin cnt by (simp add: truthful_def mines_out_def)
qed

lemma truthful_safes_out:
  assumes "truthful M s" "B \<inter> M = {}"
  shows "truthful M (safes_out B s)"
proof -
  have "(cells s - B) \<inter> M = cells s \<inter> M" using assms by auto
  then show ?thesis using assms by (simp add: truthful_def safes_out_def)
qed

lemma sound_mark_mines:
  "sound M st \<Longrightarrow> finite A \<Longrightarrow> A \<subseteq> M \<Longrightarrow> sound M (mark_mines A st)"
  by (auto simp: sound_def mark_mines_eq truthful_mines_out)

lemma sound_mark_safes:
  "sound M st \<Longrightarrow> B \<inter> M = {} \<Longrightarrow> sound M (mark_safes B st)"
  by (cases "finite B") (auto simp: sound_def mark_safes_eq mark_safes_infinite truthful_safes_out)

lemma sound_extract_all: "sound M st \<Longrightarrow> sound M (extract_all st)"
proof (rule extract_all_preserves [where P = "sound M"])
  fix st s assume "sound M st" "s \<in> set (knowledge st)"
  then show "sound M (mark_mines (known_mines s) st)"
    by (intro sound_mark_mines known_mines_finite truthful_known_mines) (auto simp: sound_def)
next
  fix st s assume "sound M st" "s \<in> set (knowledge st)"
  then show "sound M (mark_safes (known_safes s) st)"
    by (intro sound_mark_safes truthful_known_safes) (auto simp: sound_def)
qed

section \<open>Subset resolution\<close>

lemma infer_step_ok:
  "s1 \<in> set K \<Longrightarrow> s2 \<in> set K \<Longrightarrow> acc_ok K acc \<Longrightarrow> acc_ok K (infer_step K s1 s2 acc)"
  by (auto simp: acc_ok_def infer_step_def Let_def derived_def)

lemma fold_infer_step_ok:
  "s1 \<in> set K \<Longrightarrow> set ys \<subseteq> set K \<Longrightarrow> acc_ok K acc \<Longrightarrow>
   acc_ok K (fold (infer_step K s1) ys acc)"
  by (induction ys arbitrary: acc) (auto simp: infer_step_ok)

lemma fold_infer_row_ok:
  "set xs \<subseteq> set K \<Longrightarrow> acc_ok K acc \<Longrightarrow> acc_ok K (fold (infer_row K) xs acc)"
  by (induction xs arbitrary: acc) (auto simp: infer_row_def fold_infer_step_ok)

lemma infer_all_ok: "acc_ok K (infer_all K)"
  unfolding infer_all_def by (rule fold_infer_row_ok) (auto simp: acc_ok_def)

lemma infer_all_flag: "snd (infer_all K) \<longleftrightarrow> fst (infer_all K) \<noteq> []"
  using infer_all_ok [of K] by (simp add: acc_ok_def)

lemma infer_all_derived: "x \<in> set (fst (infer_all K)) \<Longrightarrow> derived K x"
  using infer_all_ok [of K] by (simp add: acc_ok_def)

text \<open>When the flag is still unset after a step, nothing was queued before it and the
  pair of that step, if it is a subset pair, has its difference held.\<close>

lemma infer_step_unset:
  assumes "\<not> snd (infer_step K s1 s2 acc)" "acc_ok K acc"
  shows "acc = ([], False) \<and>
         (\<not> sentence_eq s1 s2 \<and> cells s1 \<subseteq> cells s2 \<longrightarrow>
            contains K (Sentence (cells s2 - cells s1) (count s2 - count s1)))"
proof -
  have "\<not> snd acc" using assms(1) by (auto simp: infer_step_def Let_def split: if_splits)
  then have e: "acc = ([], False)" using assms(2) by (cases acc) (auto simp: acc_ok_def)
  show ?thesis using assms(1) unfolding e
    by (auto simp: infer_step_def Let_def contains_def split: if_splits)
qed

lemma fold_infer_step_unset:
  "\<not> snd (fold (infer_step K s1) ys acc) \<Longrightarrow> s1 \<in> set K \<Longrightarrow> set ys \<subseteq> set K \<Longrightarrow>
   acc_ok K acc \<Longrightarrow>
   acc = ([], False) \<and>
   (\<forall>s2 \<in> set ys. \<not> sentence_eq s1 s2 \<and> cells s1 \<subseteq> cells s2 \<longrightarrow>
      contains K (Sentence (cells s2 - cells s1) (count s2 - count s1)))"
proof (induction ys arbitrary: acc)
  case Nil
  then show ?case by (cases acc) (auto simp: acc_ok_def)
next
  case (Cons y ys)
  have ok: "acc_ok K (infer_step K s1 y acc)" using Cons.prems by (auto simp: infer_step_ok)
  have "infer_step K s1 y acc = ([], False) \<and>
        (\<forall>s2 \<in> set ys. \<not> sentence_eq s1 s2 \<and> cells s1 \<subseteq> cells s2 \<longrightarrow>
           contains K (Sentence (cells s2 - cells s1) (count s2 - count s1)))"
    using Cons.prems ok by (intro Cons.IH) auto
  moreover from this have "\<not> snd (infer_step K s1 y acc)" by simp
  from infer_step_unset [OF this Cons.prems(4)]
  have "acc = ([], False) \<and>
         (\<not> sentence_eq s1 y \<and> cells s1 \<subseteq> cells y \<longrightarrow>
            contains K (Sentence (cells y - cells s1) (count y - count s1)))" .
  ultimately show ?case by simp
qed

lemma fold_infer_row_unset:
  "\<not> snd (fold (infer_row K) xs acc) \<Longrightarrow> set xs \<subseteq> set K \<Longrightarrow> acc_ok K acc \<Longrightarrow>
   acc = ([], False) \<and>
   (\<forall>s1 \<in> set xs. \<forall>s2 \<in> set K. \<not> sentence_eq s1 s2 \<and> cells s1 \<subseteq> cells s2 \<longrightarrow>
      contains K (Sentence (cells s2 - cells s1) (count s2 - count s1)))"
proof (induction xs arbitrary: acc)
  case Nil
  then show ?case by (cases acc) (auto simp: acc_ok_def)
next
  case (Cons x xs)
  have x: "x \<in> set K" using Cons.prems by simp
  have ok: "acc_ok K (infer_row K x acc)"
    unfolding infer_row_def using Cons.prems by (intro fold_infer_step_ok) auto
  have ih: "infer_row K x acc = ([], False) \<and>
        (\<forall>s1 \<in> set xs. \<forall>s2 \<in> set K. \<not> sentence_eq s1 s2 \<and> cells s1 \<subseteq> cells s2 \<longrightarrow>
           contains K (Sentence (cells s2 - cells s1) (count s2 - count s1)))"
    using Cons.prems ok by (intro Cons.IH) auto
  then have "\<not> snd (fold (infer_step K x) K acc)" by (simp add: infer_row_def)
  from fold_infer_step_unset [OF this x subset_refl Cons.prems(3)] ih
  show ?case by simp
qed

lemma infer_all_unset: "\<not> snd (infer_all K) \<Longrightarrow> saturated K"
proof -
  assume "\<not> snd (infer_all K)"
  then have "\<not> snd (fold (infer_row K) K ([], False))" by (simp add: infer_all_def)
  from fold_infer_row_unset [OF this subset_refl]
  show ?thesis by (simp add: saturated_def acc_ok_def)
qed

section \<open>The closure loop\<close>

lemma closure_pass_fst:
  "fst (closure_pass st) =
     (extract_all st)\<lparr>knowledge :=
        knowledge (extract_all st) @ fst (infer_all (knowledge (extract_all st)))\<rparr>"
  by (simp add: closure_pass_def Let_def split: prod.splits)

lemma closure_pass_snd: "snd (closure_pass st) = snd (infer_all (knowledge (extract_all st)))"
  by (simp add: closure_pass_def Let_def split: prod.splits)


lemma closure_loop_unfold:
  "closure_loop st =
     (if snd (closure_pass st) then closure_loop (fst (closure_pass st))
      else Some (fst (closure_pass st)))"
  by (subst closure_loop.simps) (simp split: prod.splits)

text \<open>The proof rule of the loop: an invariant \<open>P\<close> of the passes that continue, and a
  property \<open>Q\<close> that the last pass establishes.\<close>

lemma closure_loop_rule:
  assumes ret: "closure_loop st = Some st'"
      and init: "P st"
      and step: "\<And>st. P st \<Longrightarrow> snd (closure_pass st) \<Longrightarrow> P (fst (closure_pass st))"
      and last: "\<And>st. P st \<Longrightarrow> \<not> snd (closure_pass st) \<Longrightarrow> Q (fst (closure_pass st))"
  shows "Q st'"
proof -
  have "P st \<longrightarrow> Q st'"
  proof (rule closure_loop.raw_induct [where P = "\<lambda>x y. P x \<longrightarrow> Q y", OF _ ret])
    fix f st st'
    assume ih: "\<And>x y. f x = Some y \<Longrightarrow> P x \<longrightarrow> Q y"
       and eq: "(case closure_pass st of (st1, made) \<Rightarrow> if made then f st1 else Some st1) = Some st'"
    show "P st \<longrightarrow> Q st'"
    proof
      assume p: "P st"
      show "Q st'"
      proof (cases "snd (closure_pass st)")
        case True
        with eq have "f (fst (closure_pass st)) = Some st'" by (simp split: prod.splits)
        from ih [OF this] step [OF p True] show ?thesis by simp
      next
        case False
        with eq have "st' = fst (closure_pass st)" by (simp split: prod.splits)
        with last [OF p False] show ?thesis by simp
      qed
    qed
  qed
  with init show ?thesis by simp
qed

lemma closure_loop_invariant:
  assumes "closure_loop st = Some st'" "P st"
      and "\<And>st. P st \<Longrightarrow> P (fst (closure_pass st))"
  shows "P st'"
  by (rule closure_loop_rule [where P = P and Q = P, OF assms(1,2)]) (auto intro: assms(3))


lemma truthful_diff:
  assumes "truthful M a" "truthful M b" "cells a \<subseteq> cells b"
  shows "truthful M (Sentence (cells b - cells a) (count b - count a))"
proof -
  have fin: "finite (cells b)" using assms by (simp add: truthful_def)
  have e: "(cells b - cells a) \<inter> M = (cells b \<inter> M) - (cells a \<inter> M)" by auto
  have sub: "cells a \<inter> M \<subseteq> cells b \<inter> M" using assms(3) by auto
  have "card ((cells b - cells a) \<inter> M) = card (cells b \<inter> M) - card (cells a \<inter> M)"
    unfolding e using fin sub by (intro card_Diff_subset) (auto intro: finite_subset)
  moreover have "card (cells a \<inter> M) \<le> card (cells b \<inter> M)"
    using sub fin by (intro card_mono) auto
  ultimately show ?thesis using assms fin by (simp add: truthful_def Sentence_def)
qed

lemma truthful_derived:
  "\<forall>s \<in> set K. truthful M s \<Longrightarrow> derived K x \<Longrightarrow> truthful M x"
  by (auto simp: derived_def truthful_diff)

lemma sound_closure_pass: "sound M st \<Longrightarrow> sound M (fst (closure_pass st))"
proof -
  assume "sound M st"
  then have s: "sound M (extract_all st)" by (rule sound_extract_all)
  then have "\<forall>x \<in> set (fst (infer_all (knowledge (extract_all st)))). truthful M x"
    by (auto simp: sound_def dest!: infer_all_derived intro: truthful_derived)
  with s show ?thesis by (auto simp: closure_pass_fst sound_def)
qed

lemma sound_closure_loop: "closure_loop st = Some st' \<Longrightarrow> sound M st \<Longrightarrow> sound M st'"
  by (rule closure_loop_invariant [where P = "sound M"]) (auto intro: sound_closure_pass)

section \<open>The scan of the neighbours\<close>

lemma distinct_around: "distinct (around c)"
  by (cases c) (simp add: around_def)

lemma fold_neighbor_step:
  "fold (neighbor_step st c) xs acc =
     (fst acc \<union> {p \<in> set xs. p \<noteq> c \<and> in_grid st p \<and> p \<notin> safes st \<and> p \<notin> mines st},
      snd acc - int (length (filter (\<lambda>p. p \<noteq> c \<and> in_grid st p \<and> p \<in> mines st) xs)))"
proof (induction xs arbitrary: acc)
  case Nil
  show ?case by simp
next
  case (Cons x xs)
  show ?case
    by (simp add: Cons.IH) (auto simp: neighbor_step_def)
qed

lemma neighbor_scan_eq:
  "neighbor_scan st c n =
     (nbrs st c - safes st - mines st, n - int (card (nbrs st c \<inter> mines st)))"
proof -
  have "length (filter (\<lambda>p. p \<noteq> c \<and> in_grid st p \<and> p \<in> mines st) (around c)) =
        card ({p. p \<noteq> c \<and> in_grid st p \<and> p \<in> mines st} \<inter> set (around c))"
    by (rule distinct_length_filter) (rule distinct_around)
  moreover have "{p. p \<noteq> c \<and> in_grid st p \<and> p \<in> mines st} \<inter> set (around c) = nbrs st c \<inter> mines st"
    by (auto simp: nbrs_def)
  moreover have "{p \<in> set (around c). p \<noteq> c \<and> in_grid st p \<and> p \<notin> safes st \<and> p \<notin> mines st} =
                 nbrs st c - safes st - mines st"
    by (auto simp: nbrs_def)
  ultimately show ?thesis by (simp add: neighbor_scan_def fold_neighbor_step)
qed

lemma finite_nbrs: "finite (nbrs st c)"
  by (simp add: nbrs_def)

lemma nbrs_cong: "height st' = height st \<Longrightarrow> width st' = width st \<Longrightarrow> nbrs st' c = nbrs st c"
  by (simp add: nbrs_def in_grid_def)

lemma mark_safe_eq:
  "mark_safe c st = st\<lparr>safes := insert c (safes st), knowledge := map (safes_out {c}) (knowledge st)\<rparr>"
  using fold_mark_safe [of "[c]" st] by simp

lemma mark_mine_eq:
  "mark_mine c st = st\<lparr>mines := insert c (mines st), knowledge := map (mines_out {c}) (knowledge st)\<rparr>"
  using fold_mark_mine [of "[c]" st] by simp

text \<open>\<open>observe\<close> in terms of the scan: the opened cell is marked, the fresh neighbours
  are resolved as a whole when the count says so, and their sentence is appended.\<close>

lemma observe_eq:
  "observe st c n =
     (let st1 = mark_safe c (st\<lparr>moves_made := insert c (moves_made st)\<rparr>);
          nb = nbrs st c - safes st1 - mines st1;
          k = n - int (card (nbrs st c \<inter> mines st1));
          st2 = (if k = 0 then mark_safes nb st1 else st1);
          st3 = (if k = int (card nb) \<and> k > 0 then mark_mines nb st2 else st2)
      in st3\<lparr>knowledge := knowledge st3 @ [Sentence nb k]\<rparr>)"
proof -
  have "nbrs (mark_safe c (st\<lparr>moves_made := insert c (moves_made st)\<rparr>)) c = nbrs st c"
    by (rule nbrs_cong) (simp_all add: mark_safe_def)
  then show ?thesis
    by (simp add: observe_def neighbor_scan_eq Let_def)
qed

section \<open>Resolved cells are purged from the sentences\<close>

lemma purged_fold_mark_mine: "purged st \<Longrightarrow> purged (fold mark_mine xs st)"
  by (simp add: fold_mark_mine) (fastforce simp: purged_def mines_out_def)

lemma purged_fold_mark_safe: "purged st \<Longrightarrow> purged (fold mark_safe xs st)"
  by (simp add: fold_mark_safe) (fastforce simp: purged_def safes_out_def)

lemma purged_mark_mines: "purged st \<Longrightarrow> purged (mark_mines S st)"
  by (simp add: mark_mines_def purged_fold_mark_mine)

lemma purged_mark_safes: "purged st \<Longrightarrow> purged (mark_safes S st)"
  by (simp add: mark_safes_def purged_fold_mark_safe)

lemma purged_extract_all: "purged st \<Longrightarrow> purged (extract_all st)"
  by (rule extract_all_preserves [where P = purged])
     (auto intro: purged_mark_mines purged_mark_safes)

lemma derived_cells: "derived K x \<Longrightarrow> \<exists>s \<in> set K. cells x \<subseteq> cells s"
  by (auto simp: derived_def Sentence_def)

lemma purged_pass_tail:
  assumes p: "purged (extract_all st)"
  shows "purged (fst (closure_pass st))"
proof -
  have "cells x \<inter> (mines (extract_all st) \<union> safes (extract_all st)) = {}"
    if "x \<in> set (fst (infer_all (knowledge (extract_all st))))" for x
  proof -
    from that obtain s where "s \<in> set (knowledge (extract_all st))" "cells x \<subseteq> cells s"
      using derived_cells infer_all_derived by blast
    with p show ?thesis by (fastforce simp: purged_def)
  qed
  with p show ?thesis by (auto simp: closure_pass_fst purged_def)
qed

lemma purged_closure_pass: "purged st \<Longrightarrow> purged (fst (closure_pass st))"
  by (intro purged_pass_tail purged_extract_all)

lemma pending_purged:
  "purged st \<Longrightarrow> knowledge st \<noteq> [] \<Longrightarrow> pending st"
  by (auto simp: purged_def pending_def dest: in_set_butlastD)

lemma pending_map:
  assumes pend: "pending st"
      and X: "X \<inter> (mines st \<union> safes st) = {}"
      and k: "knowledge st' = map f (knowledge st)"
      and c: "mines st' \<union> safes st' = mines st \<union> safes st \<union> X"
      and f1: "\<And>s. cells (f s) = cells s - X"
      and f2: "\<And>s. cells s \<inter> X = {} \<Longrightarrow> count (f s) = count s"
  shows "pending st'"
proof -
  let ?K = "knowledge st" and ?C = "mines st \<union> safes st"
  have ne: "?K \<noteq> []" using pend by (simp add: pending_def)
  have bl: "butlast (knowledge st') = map f (butlast ?K)" by (simp add: k map_butlast)
  have la: "last (knowledge st') = f (last ?K)" using ne by (simp add: k last_map)
  have 1: "knowledge st' \<noteq> []" using ne by (simp add: k)
  have 2: "\<forall>s \<in> set (butlast (knowledge st')). cells s \<inter> (mines st' \<union> safes st') = {}"
  proof
    fix s assume "s \<in> set (butlast (knowledge st'))"
    then obtain t where t: "t \<in> set (butlast ?K)" "s = f t" by (auto simp: bl)
    then have "cells t \<inter> ?C = {}" using pend by (simp add: pending_def)
    then show "cells s \<inter> (mines st' \<union> safes st') = {}" unfolding c t(2) f1 by auto
  qed
  have 3: "cells (last (knowledge st')) \<inter> (mines st' \<union> safes st') = {} \<or>
      cells (last (knowledge st')) \<subseteq> mines st' \<union> safes st' \<and>
      finite (cells (last (knowledge st'))) \<and>
      (count (last (knowledge st')) = 0 \<or>
       count (last (knowledge st')) = int (card (cells (last (knowledge st')))))"
  proof (cases "cells (last ?K) \<inter> ?C = {}")
    case True
    then have "cells (f (last ?K)) \<inter> (?C \<union> X) = {}" unfolding f1 by auto
    then show ?thesis by (simp add: la c)
  next
    case False
    with pend have h: "cells (last ?K) \<subseteq> ?C" "finite (cells (last ?K))"
      "count (last ?K) = 0 \<or> count (last ?K) = int (card (cells (last ?K)))"
      by (auto simp: pending_def)
    have d: "cells (last ?K) \<inter> X = {}" using h(1) X by auto
    then have e: "cells (f (last ?K)) = cells (last ?K)" unfolding f1 by auto
    have "count (f (last ?K)) = count (last ?K)" using d by (rule f2)
    with h e show ?thesis unfolding la c by auto
  qed
  from 1 2 3 show ?thesis unfolding pending_def by blast
qed

lemma set_sorted_list_subset: "set (sorted_list_of_set (X :: cell set)) \<subseteq> X"
  by (cases "finite X") simp_all

lemma pending_mark_mines:
  assumes "pending st" "X \<inter> (mines st \<union> safes st) = {}"
  shows "pending (mark_mines X st)"
proof -
  let ?Y = "set (sorted_list_of_set X)"
  have y: "?Y \<inter> (mines st \<union> safes st) = {}"
    using assms(2) set_sorted_list_subset [of X] by auto
  show ?thesis
  proof (rule pending_map [OF assms(1) y, where f = "mines_out ?Y"])
    show "knowledge (mark_mines X st) = map (mines_out ?Y) (knowledge st)"
      by (simp add: mark_mines_def fold_mark_mine)
    show "mines (mark_mines X st) \<union> safes (mark_mines X st) = mines st \<union> safes st \<union> ?Y"
      by (auto simp: mark_mines_def fold_mark_mine)
  qed (auto simp: mines_out_def)
qed

lemma pending_mark_safes:
  assumes "pending st" "X \<inter> (mines st \<union> safes st) = {}"
  shows "pending (mark_safes X st)"
proof -
  let ?Y = "set (sorted_list_of_set X)"
  have y: "?Y \<inter> (mines st \<union> safes st) = {}"
    using assms(2) set_sorted_list_subset [of X] by auto
  show ?thesis
  proof (rule pending_map [OF assms(1) y, where f = "safes_out ?Y"])
    show "knowledge (mark_safes X st) = map (safes_out ?Y) (knowledge st)"
      by (simp add: mark_safes_def fold_mark_safe)
    show "mines (mark_safes X st) \<union> safes (mark_safes X st) = mines st \<union> safes st \<union> ?Y"
      by (auto simp: mark_safes_def fold_mark_safe)
  qed (auto simp: safes_out_def)
qed

lemma known_mines_subset: "known_mines s \<subseteq> cells s"
  by (simp add: known_mines_def)

lemma known_safes_subset: "known_safes s \<subseteq> cells s"
  by (simp add: known_safes_def)

text \<open>The sentences before the last one are visited first.\<close>

lemma pending_prefix:
  assumes "pending st"
  shows "pending (fold extract_at [0..<length (knowledge st) - 1] st) \<and>
         length (knowledge (fold extract_at [0..<length (knowledge st) - 1] st)) =
         length (knowledge st)"
proof -
  define n where "n = length (knowledge st)"
  have "(pending (fold extract_at [0..<n - 1] st) \<and>
         length (knowledge (fold extract_at [0..<n - 1] st)) = n) \<and>
        length (knowledge (fold extract_at [0..<n - 1] st)) = length (knowledge st)"
  proof (rule fold_extract_at_preserves
      [where P = "\<lambda>st. pending st \<and> length (knowledge st) = n" and I = "{i. i < n - 1}"])
    fix st i
    assume h: "pending st \<and> length (knowledge st) = n" "i \<in> {i. i < n - 1}"
    then have "knowledge st ! i \<in> set (butlast (knowledge st))"
      by (metis mem_Collect_eq length_butlast nth_butlast nth_mem)
    with h have d: "cells (knowledge st ! i) \<inter> (mines st \<union> safes st) = {}"
      by (simp add: pending_def)
    have "known_mines (knowledge st ! i) \<inter> (mines st \<union> safes st) = {}"
      using d known_mines_subset [of "knowledge st ! i"] by auto
    then show "pending (mark_mines (known_mines (knowledge st ! i)) st) \<and>
               length (knowledge (mark_mines (known_mines (knowledge st ! i)) st)) = n"
      using h by (simp add: pending_mark_mines length_mark_mines)
    have "known_safes (knowledge st ! i) \<inter> (mines st \<union> safes st) = {}"
      using d known_safes_subset [of "knowledge st ! i"] by auto
    then show "pending (mark_safes (known_safes (knowledge st ! i)) st) \<and>
               length (knowledge (mark_safes (known_safes (knowledge st ! i)) st)) = n"
      using h by (simp add: pending_mark_safes length_mark_safes)
  qed (use assms in \<open>auto simp: n_def\<close>)
  then show ?thesis by (simp add: n_def)
qed

lemma butlast_or_last: "K \<noteq> [] \<Longrightarrow> t \<in> set K \<Longrightarrow> t \<in> set (butlast K) \<or> t = last K"
  by (metis Un_iff append_butlast_last_id empty_iff empty_set set_ConsD set_append)

lemma purged_resolve_last_mines:
  assumes "pending st" "finite (cells (last (knowledge st)))"
  shows "purged (mark_mines (cells (last (knowledge st))) st)"
proof -
  let ?L = "cells (last (knowledge st))"
  have "(cells t - ?L) \<inter> (mines st \<union> ?L \<union> safes st) = {}" if "t \<in> set (knowledge st)" for t
  proof -
    from assms(1) that butlast_or_last [of "knowledge st" t]
    consider "t \<in> set (butlast (knowledge st))" | "t = last (knowledge st)"
      by (auto simp: pending_def)
    then show ?thesis
    proof cases
      case 1
      with assms(1) have "cells t \<inter> (mines st \<union> safes st) = {}" by (simp add: pending_def)
      then show ?thesis by auto
    next
      case 2
      then show ?thesis by simp
    qed
  qed
  then show ?thesis
    by (simp add: mark_mines_eq [OF assms(2)] purged_def mines_out_def)
qed

lemma purged_resolve_last_safes:
  assumes "pending st" "finite (cells (last (knowledge st)))"
  shows "purged (mark_safes (cells (last (knowledge st))) st)"
proof -
  let ?L = "cells (last (knowledge st))"
  have "(cells t - ?L) \<inter> (mines st \<union> (safes st \<union> ?L)) = {}" if "t \<in> set (knowledge st)" for t
  proof -
    from assms(1) that butlast_or_last [of "knowledge st" t]
    consider "t \<in> set (butlast (knowledge st))" | "t = last (knowledge st)"
      by (auto simp: pending_def)
    then show ?thesis
    proof cases
      case 1
      with assms(1) have "cells t \<inter> (mines st \<union> safes st) = {}" by (simp add: pending_def)
      then show ?thesis by auto
    next
      case 2
      then show ?thesis by simp
    qed
  qed
  then show ?thesis
    by (simp add: mark_safes_eq [OF assms(2)] purged_def safes_out_def)
qed

text \<open>The last sentence is visited: whatever lines 209 to 214 resolved is removed from it.\<close>

lemma pending_extract_last:
  assumes "pending st"
  shows "purged (extract_at (length (knowledge st) - 1) st)"
proof -
  let ?K = "knowledge st" and ?C = "mines st \<union> safes st"
  let ?i = "length ?K - 1"
  have ne: "?K \<noteq> []" using assms by (simp add: pending_def)
  then have s: "?K ! ?i = last ?K" by (simp add: last_conv_nth)
  let ?st1 = "mark_mines (known_mines (last ?K)) st"
  have ex: "extract_at ?i st = mark_safes (known_safes (knowledge ?st1 ! ?i)) ?st1"
    by (simp only: extract_at_alt s)
  show ?thesis
  proof (cases "cells (last ?K) \<inter> ?C = {}")
    case True
    have "cells t \<inter> ?C = {}" if "t \<in> set ?K" for t
      using butlast_or_last [OF ne that] True assms by (auto simp: pending_def)
    then have "purged st" by (simp add: purged_def)
    then show ?thesis unfolding ex by (intro purged_mark_safes purged_mark_mines)
  next
    case False
    with assms have h: "finite (cells (last ?K))"
      "count (last ?K) = 0 \<or> count (last ?K) = int (card (cells (last ?K)))"
      by (auto simp: pending_def)
    show ?thesis
    proof (cases "count (last ?K) = 0")
      case True
      then have "known_mines (last ?K) = {}" by (simp add: known_mines_def)
      then have e: "?st1 = st" by (simp add: mark_mines_empty)
      have "known_safes (last ?K) = cells (last ?K)" using True by (simp add: known_safes_def)
      then show ?thesis unfolding ex e s by (simp add: purged_resolve_last_safes assms h(1))
    next
      case False
      with h have "known_mines (last ?K) = cells (last ?K)" by (simp add: known_mines_def)
      then have "purged ?st1" by (simp add: purged_resolve_last_mines assms h(1))
      then show ?thesis unfolding ex by (rule purged_mark_safes)
    qed
  qed
qed

lemma pending_extract_all:
  assumes "pending st"
  shows "purged (extract_all st)"
proof -
  let ?n = "length (knowledge st)"
  let ?st1 = "fold extract_at [0..<?n - 1] st"
  have ne: "?n \<noteq> 0" using assms by (simp add: pending_def)
  then have "[0..<?n] = [0..<?n - 1] @ [?n - 1]"
    by (metis Suc_diff_1 not_gr_zero upt_Suc_append zero_le)
  then have "extract_all st = extract_at (?n - 1) ?st1"
    by (simp add: extract_all_def)
  moreover have "pending ?st1" "length (knowledge ?st1) = ?n"
    using pending_prefix [OF assms] by simp_all
  ultimately show ?thesis using pending_extract_last [of ?st1] by simp
qed

lemma pending_append:
  assumes "purged st"
      and "cells x \<inter> (mines st \<union> safes st) = {} \<or>
           cells x \<subseteq> mines st \<union> safes st \<and> finite (cells x) \<and>
           (count x = 0 \<or> count x = int (card (cells x)))"
  shows "pending (st\<lparr>knowledge := knowledge st @ [x]\<rparr>)"
  using assms by (auto simp: pending_def purged_def)

lemma purged_mark_safe: "purged st \<Longrightarrow> purged (mark_safe c st)"
  using purged_fold_mark_safe [of st "[c]"] by simp

lemma observe_pending:
  assumes "purged st"
  shows "pending (observe st c n)"
proof -
  define st1 where "st1 = mark_safe c (st\<lparr>moves_made := insert c (moves_made st)\<rparr>)"
  define nb where "nb = nbrs st c - safes st1 - mines st1"
  define k where "k = n - int (card (nbrs st c \<inter> mines st1))"
  have "purged (st\<lparr>moves_made := insert c (moves_made st)\<rparr>)"
    using assms by (simp add: purged_def)
  then have p1: "purged st1" unfolding st1_def by (rule purged_mark_safe)
  have fin: "finite nb" by (simp add: nb_def finite_nbrs)
  have fresh: "nb \<inter> (mines st1 \<union> safes st1) = {}" by (auto simp: nb_def)
  define st2 where "st2 = (if k = 0 then mark_safes nb st1 else st1)"
  define st3 where "st3 = (if k = int (card nb) \<and> k > 0 then mark_mines nb st2 else st2)"
  have e: "observe st c n = st3\<lparr>knowledge := knowledge st3 @ [Sentence nb k]\<rparr>"
    by (simp add: observe_eq Let_def st3_def st2_def k_def nb_def st1_def)
  consider (safe) "k = 0" | (mine) "k \<noteq> 0" "k = int (card nb)" "k > 0"
    | (none) "k \<noteq> 0" "\<not> (k = int (card nb) \<and> k > 0)" by blast
  then show ?thesis unfolding e
  proof cases
    case safe
    then have s3: "st3 = mark_safes nb st1" by (simp add: st3_def st2_def)
    have "nb \<subseteq> mines st3 \<union> safes st3"
      unfolding s3 by (simp add: mark_safes_eq [OF fin]) blast
    moreover have "purged st3" unfolding s3 using p1 by (rule purged_mark_safes)
    ultimately show "pending (st3\<lparr>knowledge := knowledge st3 @ [Sentence nb k]\<rparr>)"
      using safe fin by (intro pending_append) (simp_all add: Sentence_def)
  next
    case mine
    then have s3: "st3 = mark_mines nb st1" by (simp add: st3_def st2_def)
    have "nb \<subseteq> mines st3 \<union> safes st3"
      unfolding s3 by (simp add: mark_mines_eq [OF fin]) blast
    moreover have "purged st3" unfolding s3 using p1 by (rule purged_mark_mines)
    ultimately show "pending (st3\<lparr>knowledge := knowledge st3 @ [Sentence nb k]\<rparr>)"
      using mine fin by (intro pending_append) (simp_all add: Sentence_def)
  next
    case none
    then have s3: "st3 = st1" by (auto simp: st3_def st2_def)
    show "pending (st3\<lparr>knowledge := knowledge st3 @ [Sentence nb k]\<rparr>)"
      unfolding s3 using p1 fresh by (intro pending_append) (simp_all add: Sentence_def)
  qed
qed

lemma pending_closure_pass:
  assumes "pending st"
  shows "purged (fst (closure_pass st))" "pending (fst (closure_pass st))"
proof -
  show p: "purged (fst (closure_pass st))"
    using assms by (intro purged_pass_tail pending_extract_all)
  have "knowledge (fst (closure_pass st)) \<noteq> []"
    using assms length_extract_all [of st] by (auto simp: closure_pass_fst pending_def)
  with p show "pending (fst (closure_pass st))" by (rule pending_purged)
qed

lemma purged_add_knowledge:
  assumes "purged st" "add_knowledge st c n = Some st'"
  shows "purged st'"
proof (rule closure_loop_rule [where P = pending and Q = purged])
  show "closure_loop (observe st c n) = Some st'" using assms(2) by (simp add: add_knowledge_def)
  show "pending (observe st c n)" using assms(1) by (rule observe_pending)
qed (auto intro: pending_closure_pass)

lemma purged_add_all: "purged st \<Longrightarrow> add_all st obs = Some st' \<Longrightarrow> purged st'"
proof (induction obs arbitrary: st)
  case Nil
  then show ?case by simp
next
  case (Cons ob obs)
  obtain c n where o: "ob = (c, n)" by (cases ob)
  from Cons.prems(2) obtain st1 where
    "add_knowledge st c n = Some st1" "add_all st1 obs = Some st'"
    by (auto simp: o split: option.splits)
  with Cons.prems(1) Cons.IH show ?case by (blast intro: purged_add_knowledge)
qed

text \<open>
  C5. After every call of \<open>add_knowledge\<close> that returns, in any sequence of observations
  from the initial state, no cell of a held sentence is a confirmed mine or a confirmed
  safe cell.
\<close>

theorem resolved_cells_purged:
  "add_all (init_ai h w) obs = Some st \<Longrightarrow> purged st"
  by (rule purged_add_all [of "init_ai h w"]) (simp_all add: purged_def init_ai_def)

theorem resolved_cells_purged_witness:
  "add_all (init_ai 2 4) (grid24_obs @ [((0, 2), 1)]) = Some grid24_final \<and> purged grid24_final"
proof -
  have h: "add_all (init_ai 2 4) (grid24_obs @ [((0, 2), 1)]) = Some grid24_final" by code_simp
  from resolved_cells_purged [OF h] h show ?thesis by simp
qed

section \<open>Honest observations keep the state sound\<close>

lemma sound_mark_safe: "sound M st \<Longrightarrow> c \<notin> M \<Longrightarrow> sound M (mark_safe c st)"
  by (auto simp: sound_def mark_safe_eq truthful_safes_out)

lemma sound_mark_mine: "sound M st \<Longrightarrow> c \<in> M \<Longrightarrow> sound M (mark_mine c st)"
  by (auto simp: sound_def mark_mine_eq truthful_mines_out)

lemma sound_observe:
  assumes s: "sound M st" and h: "honest M st (c, n)"
  shows "sound M (observe st c n)"
proof -
  define st1 where "st1 = mark_safe c (st\<lparr>moves_made := insert c (moves_made st)\<rparr>)"
  define nb where "nb = nbrs st c - safes st1 - mines st1"
  define k where "k = n - int (card (nbrs st c \<inter> mines st1))"
  define st2 where "st2 = (if k = 0 then mark_safes nb st1 else st1)"
  define st3 where "st3 = (if k = int (card nb) \<and> k > 0 then mark_mines nb st2 else st2)"
  have e: "observe st c n = st3\<lparr>knowledge := knowledge st3 @ [Sentence nb k]\<rparr>"
    by (simp add: observe_eq Let_def st3_def st2_def k_def nb_def st1_def)
  have "sound M (st\<lparr>moves_made := insert c (moves_made st)\<rparr>)" using s by (simp add: sound_def)
  then have s1: "sound M st1" unfolding st1_def using h by (intro sound_mark_safe) (simp_all add: honest_def)
  have fin: "finite nb" by (simp add: nb_def finite_nbrs)
  have n: "n = int (card (nbrs st c \<inter> M))" using h by (simp add: honest_def)
  have split: "nbrs st c \<inter> M = (nb \<inter> M) \<union> (nbrs st c \<inter> mines st1)"
    using s1 by (auto simp: nb_def sound_def)
  have disj: "(nb \<inter> M) \<inter> (nbrs st c \<inter> mines st1) = {}" by (auto simp: nb_def)
  have "card (nbrs st c \<inter> M) = card (nb \<inter> M) + card (nbrs st c \<inter> mines st1)"
    unfolding split using disj fin finite_nbrs [of st c] by (intro card_Un_disjoint) auto
  then have k: "k = int (card (nb \<inter> M))" by (simp add: k_def n)
  then have t: "truthful M (Sentence nb k)" using fin by (simp add: truthful_def Sentence_def)
  have s2: "sound M st2"
  proof (cases "k = 0")
    case True
    with k fin have "nb \<inter> M = {}" by simp
    then show ?thesis using True s1 by (simp add: st2_def sound_mark_safes)
  next
    case False
    then show ?thesis using s1 by (simp add: st2_def)
  qed
  have s3: "sound M st3"
  proof (cases "k = int (card nb) \<and> k > 0")
    case True
    with k have "card (nb \<inter> M) = card nb" by simp
    then have "nb \<inter> M = nb" using fin by (intro card_subset_eq) auto
    then have "nb \<subseteq> M" by auto
    then show ?thesis using True s2 fin by (simp add: st3_def sound_mark_mines)
  next
    case False
    then show ?thesis using s2 by (auto simp: st3_def)
  qed
  show ?thesis unfolding e using s3 t by (auto simp: sound_def)
qed

lemma sound_add_knowledge:
  "sound M st \<Longrightarrow> honest M st (c, n) \<Longrightarrow> add_knowledge st c n = Some st' \<Longrightarrow> sound M st'"
  unfolding add_knowledge_def by (blast intro: sound_closure_loop sound_observe)

subsection \<open>The grid does not change\<close>

lemma same_grid_mark_mines: "same_grid st st' \<Longrightarrow> same_grid st (mark_mines S st')"
  by (simp add: same_grid_def mark_mines_def fold_mark_mine)

lemma same_grid_mark_safes: "same_grid st st' \<Longrightarrow> same_grid st (mark_safes S st')"
  by (simp add: same_grid_def mark_safes_def fold_mark_safe)

lemma same_grid_closure_pass: "same_grid st st' \<Longrightarrow> same_grid st (fst (closure_pass st'))"
proof -
  assume "same_grid st st'"
  then have "same_grid st (extract_all st')"
    by (rule extract_all_preserves) (auto intro: same_grid_mark_mines same_grid_mark_safes)
  then show ?thesis by (simp add: closure_pass_fst same_grid_def)
qed

lemma same_grid_observe: "same_grid st (observe st c n)"
  by (simp add: observe_eq Let_def same_grid_def mark_safe_def mark_mines_def mark_safes_def
      fold_mark_mine fold_mark_safe)

lemma same_grid_add_knowledge: "add_knowledge st c n = Some st' \<Longrightarrow> same_grid st st'"
  unfolding add_knowledge_def
  by (rule closure_loop_invariant [where P = "same_grid st"])
     (auto intro: same_grid_observe same_grid_closure_pass)

lemma honest_same_grid: "same_grid st st' \<Longrightarrow> honest M st' ob = honest M st ob"
  by (simp add: honest_def same_grid_def nbrs_def in_grid_def)

lemma sound_add_all:
  "sound M st \<Longrightarrow> \<forall>ob \<in> set obs. honest M st ob \<Longrightarrow> add_all st obs = Some st' \<Longrightarrow> sound M st'"
proof (induction obs arbitrary: st)
  case Nil
  then show ?case by simp
next
  case (Cons ob obs)
  obtain c n where o: "ob = (c, n)" by (cases ob)
  from Cons.prems(3) obtain st1 where
    1: "add_knowledge st c n = Some st1" and 2: "add_all st1 obs = Some st'"
    by (auto simp: o split: option.splits)
  have "sound M st1" using Cons.prems(1,2) 1 by (auto simp: o intro: sound_add_knowledge)
  moreover have "\<forall>ob \<in> set obs. honest M st1 ob"
    using Cons.prems(2) honest_same_grid [OF same_grid_add_knowledge [OF 1]] by simp
  ultimately show ?case using 2 by (rule Cons.IH)
qed

lemma sound_init: "sound M (init_ai h w)"
  by (simp add: sound_def init_ai_def)

section \<open>The sentence mutators keep the count in range\<close>

lemma truthful_range: "truthful M s \<Longrightarrow> 0 \<le> count s \<and> count s \<le> int (card (cells s))"
  by (auto simp: truthful_def intro: card_mono)

lemma truthful_resolve:
  "\<forall>s \<in> set (knowledge st). truthful M s \<Longrightarrow> proven M r \<Longrightarrow>
   \<forall>s \<in> set (knowledge (resolve r st)). truthful M s"
  by (cases r) (auto simp: mark_mine_eq mark_safe_eq truthful_mines_out truthful_safes_out)

lemma truthful_fold_resolve:
  "\<forall>s \<in> set (knowledge st). truthful M s \<Longrightarrow> \<forall>r \<in> set rs. proven M r \<Longrightarrow>
   \<forall>s \<in> set (knowledge (fold resolve rs st)). truthful M s"
proof (induction rs arbitrary: st)
  case Nil
  then show ?case by simp
next
  case (Cons r rs)
  have "\<forall>s \<in> set (knowledge (resolve r st)). truthful M s"
    using Cons.prems by (intro truthful_resolve) simp_all
  then have "\<forall>s \<in> set (knowledge (fold resolve rs (resolve r st))). truthful M s"
    using Cons.prems(2) by (intro Cons.IH) simp_all
  then show ?case by simp
qed

text \<open>
  C7, amended. In a knowledge base whose sentences are true of the mine layout (each
  count is the number of layout mines among the cells), after any sequence
  of broadcasts of \<open>Sentence.mark_mine\<close> and \<open>Sentence.mark_safe\<close>, each for a cell that
  has that status in the layout, every sentence satisfies \<open>0 \<le> count \<le> |cells|\<close>.
\<close>

theorem count_stays_in_range:
  assumes "\<forall>s \<in> set (knowledge st). truthful M s"
      and "\<forall>r \<in> set rs. proven M r"
  shows "\<forall>s \<in> set (knowledge (fold resolve rs st)). 0 \<le> count s \<and> count s \<le> int (card (cells s))"
  using truthful_fold_resolve [OF assms] by (blast dest: truthful_range)

theorem count_stays_in_range_witness:
  "list_all (truthful {(1, 0), (1, 2)}) (knowledge grid24_entry) \<and>
   proven {(1, 0), (1, 2)} (AsMine (1, 2)) \<and>
   proven {(1, 0), (1, 2)} (AsSafe (1, 1)) \<and>
   list_all (\<lambda>s. 0 \<le> count s \<and> count s \<le> int (card (cells s)))
     (knowledge (fold resolve [AsMine (1, 2), AsSafe (1, 1)] grid24_entry))"
proof -
  have h1: "\<forall>s \<in> set (knowledge grid24_entry). truthful {(1, 0), (1, 2)} s"
    by (simp add: grid24_entry_def truthful_def)
  have h2: "\<forall>r \<in> set [AsMine (1, 2), AsSafe (1, 1)]. proven {(1, 0), (1, 2)} r" by simp
  from count_stays_in_range [OF h1 h2] h1 h2 show ?thesis by (simp add: list_all_iff)
qed

section \<open>Two sentences over the same cells with different counts\<close>

lemma clash_map_mines_out: "clash K \<Longrightarrow> clash (map (mines_out X) K)"
  unfolding clash_def
proof (elim bexE conjE)
  fix a b assume h: "a \<in> set K" "b \<in> set K" "cells a = cells b" "count a \<noteq> count b"
  have "cells (mines_out X a) = cells (mines_out X b)" "count (mines_out X a) \<noteq> count (mines_out X b)"
    using h by (simp_all add: mines_out_def)
  moreover have "mines_out X a \<in> set (map (mines_out X) K)" "mines_out X b \<in> set (map (mines_out X) K)"
    using h by simp_all
  ultimately show "\<exists>a \<in> set (map (mines_out X) K). \<exists>b \<in> set (map (mines_out X) K).
      cells a = cells b \<and> count a \<noteq> count b" by blast
qed

lemma clash_map_safes_out: "clash K \<Longrightarrow> clash (map (safes_out X) K)"
  unfolding clash_def
proof (elim bexE conjE)
  fix a b assume h: "a \<in> set K" "b \<in> set K" "cells a = cells b" "count a \<noteq> count b"
  have "cells (safes_out X a) = cells (safes_out X b)" "count (safes_out X a) \<noteq> count (safes_out X b)"
    using h by (simp_all add: safes_out_def)
  moreover have "safes_out X a \<in> set (map (safes_out X) K)" "safes_out X b \<in> set (map (safes_out X) K)"
    using h by simp_all
  ultimately show "\<exists>a \<in> set (map (safes_out X) K). \<exists>b \<in> set (map (safes_out X) K).
      cells a = cells b \<and> count a \<noteq> count b" by blast
qed

lemma clash_extract_all: "clash (knowledge st) \<Longrightarrow> clash (knowledge (extract_all st))"
  by (rule extract_all_preserves [where P = "\<lambda>st. clash (knowledge st)"])
     (simp_all add: mark_mines_def mark_safes_def fold_mark_mine fold_mark_safe
        clash_map_mines_out clash_map_safes_out)

lemma clash_append: "clash K \<Longrightarrow> clash (K @ N)"
  by (auto simp: clash_def)

text \<open>A saturated knowledge base holds no such pair: the differences of the pair have
  no cell and opposite counts, and the largest and the smallest count of the sentences
  without cells then give a difference that is not held.\<close>

lemma saturated_no_clash:
  assumes sat: "saturated K" and cl: "clash K"
  shows False
proof -
  define E where "E = count ` {s \<in> set K. cells s = {}}"
  have fin: "finite E" by (simp add: E_def)
  have diff: "count t - count s \<in> E"
    if "s \<in> set K" "t \<in> set K" "cells s = cells t" "count s \<noteq> count t" for s t
  proof -
    have "\<not> sentence_eq s t \<and> cells s \<subseteq> cells t"
      using that by (simp add: sentence_eq_def)
    then have "contains K (Sentence (cells t - cells s) (count t - count s))"
      using sat that(1,2) unfolding saturated_def by blast
    then show ?thesis using that(3) by (auto simp: contains_def sentence_eq_def Sentence_def E_def)
  qed
  from cl obtain a b where ab: "a \<in> set K" "b \<in> set K" "cells a = cells b" "count a \<noteq> count b"
    by (auto simp: clash_def)
  have d1: "count b - count a \<in> E" using diff [OF ab] .
  have d2: "count a - count b \<in> E" using diff [of b a] ab by simp
  have ne: "E \<noteq> {}" using d1 by auto
  have "Min E < Max E"
  proof -
    have "Min E \<le> count b - count a" "Min E \<le> count a - count b"
         "count b - count a \<le> Max E" "count a - count b \<le> Max E"
      using fin d1 d2 by simp_all
    with ab(4) show ?thesis by linarith
  qed
  obtain lo where lo: "lo \<in> set K" "cells lo = {}" "count lo = Min E"
    using Min_in [OF fin ne] by (auto simp: E_def)
  obtain hi where hi: "hi \<in> set K" "cells hi = {}" "count hi = Max E"
    using Max_in [OF fin ne] by (auto simp: E_def)
  have "count hi - count lo \<in> E" using diff [of lo hi] lo hi \<open>Min E < Max E\<close> by simp
  then have "Max E - Min E \<le> Max E" using fin lo hi by simp
  moreover have "count lo - count hi \<in> E" using diff [of hi lo] lo hi \<open>Min E < Max E\<close> by simp
  then have "Min E \<le> Min E - Max E" using fin lo hi by simp
  ultimately show False using \<open>Min E < Max E\<close> by linarith
qed

lemma clash_makes_inference: "clash K \<Longrightarrow> snd (infer_all K)"
  using infer_all_unset saturated_no_clash by blast

text \<open>From a state with such a pair the closure loop never returns.\<close>

lemma clash_diverges:
  assumes "clash (knowledge st)"
  shows "closure_loop st = None"
proof (rule ccontr)
  assume "closure_loop st \<noteq> None"
  then obtain st' where r: "closure_loop st = Some st'" by auto
  show False
  proof (rule closure_loop_rule [OF r, where P = "\<lambda>st. clash (knowledge st)"])
    show "clash (knowledge st)" by (rule assms)
  next
    fix st :: ai assume "clash (knowledge st)"
    then show "clash (knowledge (fst (closure_pass st)))"
      by (simp add: closure_pass_fst clash_append clash_extract_all)
  next
    fix st :: ai assume "clash (knowledge st)" "\<not> snd (closure_pass st)"
    then show False
      by (simp add: closure_pass_snd clash_makes_inference clash_extract_all)
  qed
qed

text \<open>
  C2. The closure loop does not terminate for every state and observation: after the
  centre of the grid of three rows and columns was opened with the count 1, opening it
  again with the count 2 leaves two sentences over the same eight cells with different
  counts, and the loop then adds a new sentence in every pass.
\<close>

theorem closure_loop_may_diverge:
  "add_knowledge (init_ai 3 3) (1, 1) 1 = Some grid33_once \<and>
   add_knowledge grid33_once (1, 1) 2 = None \<and>
   add_all (init_ai 3 3) [((1, 1), 1), ((1, 1), 2)] = None"
proof -
  have 1: "add_knowledge (init_ai 3 3) (1, 1) 1 = Some grid33_once" by code_simp
  have "clash (knowledge (observe grid33_once (1, 1) 2))" by code_simp
  then have 2: "add_knowledge grid33_once (1, 1) 2 = None"
    by (simp add: add_knowledge_def clash_diverges)
  from 1 2 show ?thesis by simp
qed

section \<open>Termination of the closure loop on sound states\<close>

lemma cells_extract_all:
  "\<exists>R. map cells (knowledge (extract_all st)) = map (\<lambda>s. cells s - R) (knowledge st)"
proof (rule extract_all_preserves
    [where P = "\<lambda>st'. \<exists>R. map cells (knowledge st') = map (\<lambda>s. cells s - R) (knowledge st)"])
  show "\<exists>R. map cells (knowledge st) = map (\<lambda>s. cells s - R) (knowledge st)"
    by (rule exI [of _ "{}"]) simp
next
  fix st' :: ai and s
  assume "\<exists>R. map cells (knowledge st') = map (\<lambda>s. cells s - R) (knowledge st)"
  then obtain R where R: "map cells (knowledge st') = map (\<lambda>s. cells s - R) (knowledge st)" ..
  let ?X = "set (sorted_list_of_set (known_mines s))"
  have "map cells (knowledge (mark_mines (known_mines s) st')) =
        map (\<lambda>c. c - ?X) (map cells (knowledge st'))"
    by (simp add: mark_mines_def fold_mark_mine mines_out_def comp_def)
  also have "\<dots> = map (\<lambda>s. cells s - (R \<union> ?X)) (knowledge st)"
    unfolding R by (simp add: comp_def Diff_eq Int_assoc)
  finally show "\<exists>R. map cells (knowledge (mark_mines (known_mines s) st')) =
                    map (\<lambda>s. cells s - R) (knowledge st)" ..
next
  fix st' :: ai and s
  assume "\<exists>R. map cells (knowledge st') = map (\<lambda>s. cells s - R) (knowledge st)"
  then obtain R where R: "map cells (knowledge st') = map (\<lambda>s. cells s - R) (knowledge st)" ..
  let ?X = "set (sorted_list_of_set (known_safes s))"
  have "map cells (knowledge (mark_safes (known_safes s) st')) =
        map (\<lambda>c. c - ?X) (map cells (knowledge st'))"
    by (simp add: mark_safes_def fold_mark_safe safes_out_def comp_def)
  also have "\<dots> = map (\<lambda>s. cells s - (R \<union> ?X)) (knowledge st)"
    unfolding R by (simp add: comp_def Diff_eq Int_assoc)
  finally show "\<exists>R. map cells (knowledge (mark_safes (known_safes s) st')) =
                    map (\<lambda>s. cells s - R) (knowledge st)" ..
qed

lemma shapes_map: "shapes K = set (map cells K)"
  by (simp add: shapes_def)

lemma unresolved_map: "unresolved K = \<Union> (set (map cells K))"
  by (simp add: unresolved_def)

lemma finite_unresolved: "\<forall>s \<in> set K. truthful M s \<Longrightarrow> finite (unresolved K)"
  by (auto simp: unresolved_def truthful_def)

lemma derived_fresh_shape:
  assumes "\<forall>s \<in> set K. truthful M s" "derived K x"
  shows "cells x \<notin> shapes K"
proof
  assume "cells x \<in> shapes K"
  then obtain s where s: "s \<in> set K" "cells s = cells x" by (auto simp: shapes_def)
  have "truthful M x" using assms by (rule truthful_derived)
  moreover have "truthful M s" using assms(1) s(1) by simp
  ultimately have "count x = count s" using s(2) by (simp add: truthful_def)
  then have "contains K x" using s by (auto simp: contains_def sentence_eq_def)
  then show False using assms(2) by (simp add: derived_def)
qed

lemma slack_decreases:
  assumes snd: "sound M st" and made: "snd (closure_pass st)"
  shows "(slack (knowledge (fst (closure_pass st))), slack (knowledge st))
           \<in> less_than <*lex*> less_than"
proof -
  let ?K0 = "knowledge st" and ?K1 = "knowledge (extract_all st)"
  let ?new = "fst (infer_all ?K1)"
  let ?K2 = "?K1 @ ?new"
  let ?U0 = "unresolved ?K0" and ?U1 = "unresolved ?K1"
  have k2: "knowledge (fst (closure_pass st)) = ?K2" by (simp add: closure_pass_fst)
  have t0: "\<forall>s \<in> set ?K0. truthful M s" using snd by (simp add: sound_def)
  have t1: "\<forall>s \<in> set ?K1. truthful M s" using sound_extract_all [OF snd] by (simp add: sound_def)
  have fin0: "finite ?U0" using t0 by (rule finite_unresolved)
  obtain R where R: "map cells ?K1 = map (\<lambda>s. cells s - R) ?K0"
    using cells_extract_all [of st] ..
  have u1: "?U1 = ?U0 - R" unfolding unresolved_map R by (auto simp: unresolved_def)
  then have fin1: "finite ?U1" using fin0 by simp
  have "?new \<noteq> []" using made by (simp add: closure_pass_snd infer_all_flag)
  then obtain x where x: "x \<in> set ?new" by (cases ?new) auto
  have der: "derived ?K1 y" if "y \<in> set ?new" for y using that by (rule infer_all_derived)
  have sub: "cells y \<subseteq> ?U1" if "y \<in> set ?new" for y
    using derived_cells [OF der [OF that]] by (auto simp: unresolved_def)
  have u2: "unresolved ?K2 = ?U1" using sub by (auto simp: unresolved_def)
  have s2: "shapes ?K2 = shapes ?K1 \<union> cells ` set ?new" by (auto simp: shapes_def)
  have fresh: "cells x \<notin> shapes ?K1" using t1 der [OF x] by (rule derived_fresh_shape)
  have "Pow ?U1 - shapes ?K2 \<subset> Pow ?U1 - shapes ?K1"
  proof
    show "Pow ?U1 - shapes ?K2 \<subseteq> Pow ?U1 - shapes ?K1" unfolding s2 by auto
    have "cells x \<in> Pow ?U1 - shapes ?K1" using sub [OF x] fresh by simp
    moreover have "cells x \<notin> Pow ?U1 - shapes ?K2" unfolding s2 using x by simp
    ultimately show "Pow ?U1 - shapes ?K2 \<noteq> Pow ?U1 - shapes ?K1" by blast
  qed
  moreover have "finite (Pow ?U1 - shapes ?K1)" using fin1 by simp
  ultimately have less: "card (Pow ?U1 - shapes ?K2) < card (Pow ?U1 - shapes ?K1)"
    by (rule psubset_card_mono [rotated])
  show ?thesis
  proof (cases "?U1 = ?U0")
    case True
    then have "R \<inter> ?U0 = {}" using u1 by auto
    then have "cells s - R = cells s" if "s \<in> set ?K0" for s
      using that by (auto simp: unresolved_def)
    then have "map (\<lambda>s. cells s - R) ?K0 = map cells ?K0" by simp
    then have "shapes ?K1 = shapes ?K0" unfolding shapes_map R by simp
    with less True show ?thesis by (simp add: slack_def k2 u2)
  next
    case False
    then have "?U1 \<subset> ?U0" using u1 by auto
    then have "card ?U1 < card ?U0" using fin0 by (rule psubset_card_mono [rotated])
    then show ?thesis by (simp add: slack_def k2 u2)
  qed
qed

lemma closure_loop_returns:
  assumes "sound M st"
  shows "\<exists>st'. closure_loop st = Some st'"
proof -
  have "wf (inv_image (less_than <*lex*> less_than) (\<lambda>st. slack (knowledge st)))"
    by (intro wf_inv_image wf_lex_prod wf_less_than)
  then show ?thesis using assms
  proof (induction st rule: wf_induct_rule)
    case (less st)
    show ?case
    proof (cases "snd (closure_pass st)")
      case True
      have "sound M (fst (closure_pass st))" using less.prems by (rule sound_closure_pass)
      moreover have "(fst (closure_pass st), st)
          \<in> inv_image (less_than <*lex*> less_than) (\<lambda>st. slack (knowledge st))"
        using slack_decreases [OF less.prems True] by simp
      ultimately obtain st' where "closure_loop (fst (closure_pass st)) = Some st'"
        using less.IH by blast
      then show ?thesis using True by (subst closure_loop_unfold) simp
    next
      case False
      then show ?thesis by (subst closure_loop_unfold) simp
    qed
  qed
qed

lemma add_knowledge_returns:
  "sound M st \<Longrightarrow> honest M st (c, n) \<Longrightarrow> \<exists>st'. add_knowledge st c n = Some st'"
  unfolding add_knowledge_def by (intro closure_loop_returns sound_observe)

lemma add_all_returns:
  "sound M st \<Longrightarrow> \<forall>ob \<in> set obs. honest M st ob \<Longrightarrow> \<exists>st'. add_all st obs = Some st'"
proof (induction obs arbitrary: st)
  case Nil
  then show ?case by simp
next
  case (Cons ob obs)
  obtain c n where o: "ob = (c, n)" by (cases ob)
  have h: "honest M st (c, n)" using Cons.prems(2) by (simp add: o)
  obtain st1 where 1: "add_knowledge st c n = Some st1"
    using add_knowledge_returns [OF Cons.prems(1) h] ..
  have "sound M st1" using Cons.prems(1) h 1 by (rule sound_add_knowledge)
  moreover have "\<forall>ob \<in> set obs. honest M st1 ob"
    using Cons.prems(2) honest_same_grid [OF same_grid_add_knowledge [OF 1]] by simp
  ultimately obtain st' where "add_all st1 obs = Some st'" using Cons.IH by blast
  then show ?case by (simp add: o 1)
qed

text \<open>
  C2, amended. From a state that is sound for a mine layout, every sequence of
  observations that are honest for that layout makes every call of \<open>add_knowledge\<close>
  return, and leaves a sound state: the closure loop performs finitely many passes.
\<close>

theorem honest_observations_terminate:
  assumes "sound M st" and "\<forall>ob \<in> set obs. honest M st ob"
  shows "\<exists>st'. add_all st obs = Some st' \<and> sound M st'"
proof -
  obtain st' where "add_all st obs = Some st'" using add_all_returns [OF assms] ..
  moreover from this have "sound M st'" using assms by (blast intro: sound_add_all)
  ultimately show ?thesis by blast
qed

theorem honest_observations_terminate_witness:
  "sound {(0, 2)} (init_ai 1 7) \<and>
   honest {(0, 2)} (init_ai 1 7) ((0, 1), 1) \<and>
   honest {(0, 2)} (init_ai 1 7) ((0, 3), 1) \<and>
   honest {(0, 2)} (init_ai 1 7) ((0, 5), 0) \<and>
   (\<exists>st'. add_all (init_ai 1 7) row7_obs = Some st' \<and> sound {(0, 2)} st')"
proof -
  have h1: "sound {(0, 2)} (init_ai 1 7)" by (simp add: sound_def init_ai_def)
  have h2: "honest {(0, 2)} (init_ai 1 7) ((0, 1), 1)"
       "honest {(0, 2)} (init_ai 1 7) ((0, 3), 1)"
       "honest {(0, 2)} (init_ai 1 7) ((0, 5), 0)"
    by code_simp+
  then have h3: "\<forall>ob \<in> set row7_obs. honest {(0, 2)} (init_ai 1 7) ob"
    by (simp add: row7_obs_def)
  from honest_observations_terminate [OF h1 h3] h1 h2 show ?thesis by blast
qed

section \<open>Cells outside the grid\<close>

lemma observe_records:
  "c \<in> moves_made (observe st c n) \<and> c \<in> safes (observe st c n) \<and>
   length (knowledge (observe st c n)) = Suc (length (knowledge st))"
  by (simp add: observe_eq Let_def mark_safe_def mark_mines_def mark_safes_def
      fold_mark_mine fold_mark_safe)

lemma closure_pass_keeps:
  assumes "c \<in> moves_made st \<and> c \<in> safes st \<and> k < length (knowledge st)"
  shows "c \<in> moves_made (fst (closure_pass st)) \<and> c \<in> safes (fst (closure_pass st)) \<and>
         k < length (knowledge (fst (closure_pass st)))"
proof -
  have "c \<in> moves_made (extract_all st) \<and> c \<in> safes (extract_all st) \<and>
        k < length (knowledge (extract_all st))"
    by (rule extract_all_preserves
        [where P = "\<lambda>st. c \<in> moves_made st \<and> c \<in> safes st \<and> k < length (knowledge st)"])
       (use assms in \<open>simp_all add: mark_mines_def mark_safes_def fold_mark_mine fold_mark_safe\<close>)
  then show ?thesis by (simp add: closure_pass_fst)
qed

lemma add_knowledge_records:
  assumes "add_knowledge st c n = Some st'"
  shows "c \<in> moves_made st' \<and> c \<in> safes st' \<and> length (knowledge st) < length (knowledge st')"
proof (rule closure_loop_invariant
    [where P = "\<lambda>s. c \<in> moves_made s \<and> c \<in> safes s \<and> length (knowledge st) < length (knowledge s)"])
  show "closure_loop (observe st c n) = Some st'" using assms by (simp add: add_knowledge_def)
  show "c \<in> moves_made (observe st c n) \<and> c \<in> safes (observe st c n) \<and>
        length (knowledge st) < length (knowledge (observe st c n))"
    by (simp add: observe_records)
qed (rule closure_pass_keeps)

text \<open>
  C9. A cell outside the grid is not rejected: on the grid of one cell the call for
  \<open>(5, 5)\<close> returns a state that differs from the initial one in \<open>moves_made\<close>, in the
  confirmed safe cells and in the knowledge list.
\<close>

theorem outside_cell_not_rejected:
  "\<not> in_grid (init_ai 1 1) (5, 5) \<and>
   add_knowledge (init_ai 1 1) (5, 5) 0 = Some far_final \<and>
   moves_made far_final \<noteq> moves_made (init_ai 1 1) \<and>
   safes far_final \<noteq> safes (init_ai 1 1) \<and>
   knowledge far_final \<noteq> knowledge (init_ai 1 1)"
  by code_simp

text \<open>
  C9, amended. \<open>add_knowledge\<close> does not check the cell against the grid. For a cell
  outside the grid, whenever the call returns, the cell is in \<open>moves_made\<close> and in the
  confirmed safe cells and the knowledge list has grown.
\<close>

theorem outside_cell_processed:
  assumes "\<not> in_grid st c" and "add_knowledge st c n = Some st'"
  shows "c \<in> moves_made st' \<and> c \<in> safes st' \<and> length (knowledge st) < length (knowledge st')"
  using assms(2) by (rule add_knowledge_records)

theorem outside_cell_processed_witness:
  "\<not> in_grid (init_ai 1 1) (5, 5) \<and>
   add_knowledge (init_ai 1 1) (5, 5) 0 = Some far_final \<and>
   (5, 5) \<in> moves_made far_final \<and> (5, 5) \<in> safes far_final \<and>
   length (knowledge (init_ai 1 1)) < length (knowledge far_final)"
proof -
  have h1: "\<not> in_grid (init_ai 1 1) (5, 5)" by code_simp
  have h2: "add_knowledge (init_ai 1 1) (5, 5) 0 = Some far_final" by code_simp
  from outside_cell_processed [OF h1 h2] h1 h2 show ?thesis by blast
qed

section \<open>Totality of the engine operations\<close>

lemma map_err_ok: "(\<And>x. f x = Inr (g x)) \<Longrightarrow> map_err f xs = Inr (map g xs)"
  by (induction xs) simp_all

lemma mark_mine_py_ok: "mark_mine_py c st = Inr (mark_mine c st)"
  by (simp add: mark_mine_py_def mark_mine_def
      map_err_ok [where g = "\<lambda>s. sentence_mark_mine s c"] sentence_mark_mine_py_ok)

lemma mark_safe_py_ok: "mark_safe_py c st = Inr (mark_safe c st)"
  by (simp add: mark_safe_py_def mark_safe_def
      map_err_ok [where g = "\<lambda>s. sentence_mark_safe s c"] sentence_mark_safe_py_ok)

lemma make_safe_move_in_None:
  "set order = safes st \<Longrightarrow> make_safe_move_in order st = None \<longleftrightarrow> safes st \<subseteq> moves_made st"
  by (auto simp: make_safe_move_in_def find_None_iff)

lemma make_safe_move_in_Some:
  "set order = safes st \<Longrightarrow> make_safe_move_in order st = Some c \<Longrightarrow>
   c \<in> safes st \<and> c \<notin> moves_made st"
  by (auto simp: make_safe_move_in_def find_Some_iff)

lemma finite_available_moves: "finite (available_moves st)"
  by (simp add: available_moves_def all_cells_def)

lemma make_random_move_empty: "available_moves st = {} \<Longrightarrow> make_random_move r st = Inr None"
  by (simp add: make_random_move_def)

lemma make_random_move_pick:
  assumes "available_moves st \<noteq> {}"
  shows "\<exists>c \<in> available_moves st. make_random_move r st = Inr (Some c)"
proof -
  let ?xs = "sorted_list_of_set (available_moves st)"
  have s: "set ?xs = available_moves st" using finite_available_moves by simp
  then have ne: "?xs \<noteq> []" using assms by auto
  then have "0 < length ?xs" by (simp del: length_sorted_list_of_set)
  then have "r mod length ?xs < length ?xs" by (rule mod_less_divisor)
  then have "?xs ! (r mod length ?xs) \<in> available_moves st" using s nth_mem by blast
  moreover have "make_random_move r st = Inr (Some (?xs ! (r mod length ?xs)))"
    using assms ne by (simp add: make_random_move_def random_choice_def)
  ultimately show ?thesis by blast
qed

text \<open>
  C10. \<open>add_knowledge\<close> is not total: on the grid of one cell, after the cell was opened
  with the count 1 (more than it has neighbours), opening it with the count 0 makes the
  closure loop run forever.
\<close>

theorem add_knowledge_not_total:
  "add_knowledge (init_ai 1 1) (0, 0) 1 = Some cell1_once \<and>
   add_knowledge cell1_once (0, 0) 0 = None"
proof -
  have 1: "add_knowledge (init_ai 1 1) (0, 0) 1 = Some cell1_once" by code_simp
  have "clash (knowledge (observe cell1_once (0, 0) 0))" by code_simp
  then have 2: "add_knowledge cell1_once (0, 0) 0 = None"
    by (simp add: add_knowledge_def clash_diverges)
  from 1 2 show ?thesis by simp
qed

text \<open>
  C10, amended. \<open>mark_mine\<close> and \<open>mark_safe\<close> never raise, for any cell.
  \<open>make_safe_move\<close> returns \<open>None\<close> exactly when every confirmed safe cell was played,
  and otherwise a confirmed safe cell that was not, whatever the iteration order of the
  set. \<open>make_random_move\<close> never raises: it returns \<open>None\<close> when the candidate set is
  empty and otherwise a candidate, so \<open>random.choice\<close> only sees a non-empty list.
  \<open>add_knowledge\<close> cannot raise, and it returns when the state is sound for a mine
  layout and the observation is honest for it.
\<close>

theorem engine_operations_total:
  "mark_mine_py c st = Inr (mark_mine c st) \<and>
   mark_safe_py c st = Inr (mark_safe c st) \<and>
   (set order = safes st \<longrightarrow>
      (make_safe_move_in order st = None \<longleftrightarrow> safes st \<subseteq> moves_made st) \<and>
      (\<forall>c'. make_safe_move_in order st = Some c' \<longrightarrow> c' \<in> safes st \<and> c' \<notin> moves_made st)) \<and>
   (\<forall>e. make_random_move r st \<noteq> Inl e) \<and>
   (make_random_move r st = Inr None \<longleftrightarrow> available_moves st = {}) \<and>
   (\<forall>c'. make_random_move r st = Inr (Some c') \<longrightarrow> c' \<in> available_moves st) \<and>
   (sound M st \<and> honest M st (c, n) \<longrightarrow> (\<exists>st'. add_knowledge st c n = Some st'))"
proof -
  have rnd: "(\<forall>e. make_random_move r st \<noteq> Inl e) \<and>
      (make_random_move r st = Inr None \<longleftrightarrow> available_moves st = {}) \<and>
      (\<forall>c'. make_random_move r st = Inr (Some c') \<longrightarrow> c' \<in> available_moves st)"
  proof (cases "available_moves st = {}")
    case True
    then show ?thesis by (simp add: make_random_move_empty)
  next
    case False
    then obtain c' where "c' \<in> available_moves st" "make_random_move r st = Inr (Some c')"
      using make_random_move_pick by blast
    with False show ?thesis by simp
  qed
  show ?thesis
    using mark_mine_py_ok mark_safe_py_ok make_safe_move_in_None make_safe_move_in_Some
      rnd add_knowledge_returns
    by (intro conjI impI allI) blast+
qed

theorem engine_operations_total_witness:
  "set [(0, 0), (0, 1), (0, 2), (0, 3), (1, 3)] = safes grid24_entry \<and>
   make_safe_move_in [(0, 0), (0, 1), (0, 2), (0, 3), (1, 3)] grid24_entry = Some (0, 3) \<and>
   (0, 3) \<in> safes grid24_entry \<and> (0, 3) \<notin> moves_made grid24_entry \<and>
   make_random_move 0 grid24_entry = Inr (Some (0, 3)) \<and>
   (0, 3) \<in> available_moves grid24_entry \<and>
   sound {(1, 0), (1, 2)} grid24_entry \<and>
   honest {(1, 0), (1, 2)} grid24_entry ((0, 2), 1) \<and>
   (\<exists>st'. add_knowledge grid24_entry (0, 2) 1 = Some st')"
proof -
  have h1: "set [(0, 0), (0, 1), (0, 2), (0, 3), (1, 3)] = safes grid24_entry" by code_simp
  have h2: "make_safe_move_in [(0, 0), (0, 1), (0, 2), (0, 3), (1, 3)] grid24_entry = Some (0, 3)"
    by code_simp
  have h3: "make_random_move 0 grid24_entry = Inr (Some (0, 3))" by code_simp
  have h4: "sound {(1, 0), (1, 2)} grid24_entry"
    by (simp add: grid24_entry_def sound_def truthful_def)
  have h5: "honest {(1, 0), (1, 2)} grid24_entry ((0, 2), 1)" by code_simp
  from engine_operations_total
    [of "(0, 2)" grid24_entry "[(0, 0), (0, 1), (0, 2), (0, 3), (1, 3)]" 0 "{(1, 0), (1, 2)}" 1]
    h1 h2 h3 h4 h5
  show ?thesis by blast
qed

section \<open>Confirmed mines and confirmed safe cells stay apart\<close>

lemma apart_map:
  assumes ap: "apart st"
      and X: "X \<inter> (mines st \<union> safes st) = {}"
      and k: "knowledge st' = map f (knowledge st)"
      and c: "mines st' = mines st \<union> X \<and> safes st' = safes st \<or>
              mines st' = mines st \<and> safes st' = safes st \<union> X"
      and f1: "\<And>s. cells (f s) = cells s - X"
      and f2: "\<And>s. cells s \<inter> X = {} \<Longrightarrow> count (f s) = count s"
  shows "apart st'"
proof -
  let ?K = "knowledge st"
  have d: "mines st' \<inter> safes st' = {}" using ap X c by (auto simp: apart_def)
  have u: "mines st' \<union> safes st' = mines st \<union> safes st \<union> X" using c by auto
  have m: "mines st \<subseteq> mines st'" and s: "safes st \<subseteq> safes st'" using c by auto
  show ?thesis
  proof (cases "?K = []")
    case True
    then show ?thesis using d by (simp add: apart_def k)
  next
    case False
    then have la: "last (knowledge st') = f (last ?K)" by (simp add: k last_map)
    from ap False consider
        (free) "cells (last ?K) \<inter> (mines st \<union> safes st) = {}"
      | (safe) "count (last ?K) = 0" "cells (last ?K) \<subseteq> safes st"
      | (mine) "count (last ?K) \<noteq> 0" "cells (last ?K) \<subseteq> mines st"
      by (auto simp: apart_def)
    then have "cells (f (last ?K)) \<inter> (mines st' \<union> safes st') = {} \<or>
        count (f (last ?K)) = 0 \<and> cells (f (last ?K)) \<subseteq> safes st' \<or>
        count (f (last ?K)) \<noteq> 0 \<and> cells (f (last ?K)) \<subseteq> mines st'"
    proof cases
      case free
      then have "cells (f (last ?K)) \<inter> (mines st' \<union> safes st') = {}" unfolding f1 u by auto
      then show ?thesis by simp
    next
      case safe
      then have e: "cells (last ?K) \<inter> X = {}" using X by auto
      then have "cells (f (last ?K)) = cells (last ?K)" unfolding f1 by auto
      moreover have "count (f (last ?K)) = count (last ?K)" using e by (rule f2)
      ultimately show ?thesis using safe s by auto
    next
      case mine
      then have e: "cells (last ?K) \<inter> X = {}" using X by auto
      then have "cells (f (last ?K)) = cells (last ?K)" unfolding f1 by auto
      moreover have "count (f (last ?K)) = count (last ?K)" using e by (rule f2)
      ultimately show ?thesis using mine m by auto
    qed
    then show ?thesis using d unfolding apart_def la by blast
  qed
qed

lemma apart_mark_mines:
  assumes "apart st" "X \<inter> (mines st \<union> safes st) = {}"
  shows "apart (mark_mines X st)"
proof -
  let ?Y = "set (sorted_list_of_set X)"
  have y: "?Y \<inter> (mines st \<union> safes st) = {}"
    using assms(2) set_sorted_list_subset [of X] by auto
  show ?thesis
  proof (rule apart_map [OF assms(1) y, where f = "mines_out ?Y"])
    show "knowledge (mark_mines X st) = map (mines_out ?Y) (knowledge st)"
      by (simp add: mark_mines_def fold_mark_mine)
    show "mines (mark_mines X st) = mines st \<union> ?Y \<and> safes (mark_mines X st) = safes st \<or>
          mines (mark_mines X st) = mines st \<and> safes (mark_mines X st) = safes st \<union> ?Y"
      by (simp add: mark_mines_def fold_mark_mine)
  qed (auto simp: mines_out_def)
qed

lemma apart_mark_safes:
  assumes "apart st" "X \<inter> (mines st \<union> safes st) = {}"
  shows "apart (mark_safes X st)"
proof -
  let ?Y = "set (sorted_list_of_set X)"
  have y: "?Y \<inter> (mines st \<union> safes st) = {}"
    using assms(2) set_sorted_list_subset [of X] by auto
  show ?thesis
  proof (rule apart_map [OF assms(1) y, where f = "safes_out ?Y"])
    show "knowledge (mark_safes X st) = map (safes_out ?Y) (knowledge st)"
      by (simp add: mark_safes_def fold_mark_safe)
    show "mines (mark_safes X st) = mines st \<union> ?Y \<and> safes (mark_safes X st) = safes st \<or>
          mines (mark_safes X st) = mines st \<and> safes (mark_safes X st) = safes st \<union> ?Y"
      by (simp add: mark_safes_def fold_mark_safe)
  qed (auto simp: safes_out_def)
qed

lemma apart_prefix:
  assumes "pending st" "apart st"
  shows "pending (fold extract_at [0..<length (knowledge st) - 1] st) \<and>
         apart (fold extract_at [0..<length (knowledge st) - 1] st) \<and>
         length (knowledge (fold extract_at [0..<length (knowledge st) - 1] st)) =
         length (knowledge st)"
proof -
  define n where "n = length (knowledge st)"
  have "(pending (fold extract_at [0..<n - 1] st) \<and> apart (fold extract_at [0..<n - 1] st) \<and>
         length (knowledge (fold extract_at [0..<n - 1] st)) = n) \<and>
        length (knowledge (fold extract_at [0..<n - 1] st)) = length (knowledge st)"
  proof (rule fold_extract_at_preserves
      [where P = "\<lambda>st. pending st \<and> apart st \<and> length (knowledge st) = n"
         and I = "{i. i < n - 1}"])
    fix st i
    assume h: "pending st \<and> apart st \<and> length (knowledge st) = n" "i \<in> {i. i < n - 1}"
    then have "knowledge st ! i \<in> set (butlast (knowledge st))"
      by (metis mem_Collect_eq length_butlast nth_butlast nth_mem)
    with h have d: "cells (knowledge st ! i) \<inter> (mines st \<union> safes st) = {}"
      by (simp add: pending_def)
    have "known_mines (knowledge st ! i) \<inter> (mines st \<union> safes st) = {}"
      using d known_mines_subset [of "knowledge st ! i"] by auto
    then show "pending (mark_mines (known_mines (knowledge st ! i)) st) \<and>
               apart (mark_mines (known_mines (knowledge st ! i)) st) \<and>
               length (knowledge (mark_mines (known_mines (knowledge st ! i)) st)) = n"
      using h by (simp add: pending_mark_mines apart_mark_mines length_mark_mines)
    have "known_safes (knowledge st ! i) \<inter> (mines st \<union> safes st) = {}"
      using d known_safes_subset [of "knowledge st ! i"] by auto
    then show "pending (mark_safes (known_safes (knowledge st ! i)) st) \<and>
               apart (mark_safes (known_safes (knowledge st ! i)) st) \<and>
               length (knowledge (mark_safes (known_safes (knowledge st ! i)) st)) = n"
      using h by (simp add: pending_mark_safes apart_mark_safes length_mark_safes)
  qed (use assms in \<open>auto simp: n_def\<close>)
  then show ?thesis by (simp add: n_def)
qed

lemma apart_extract_last:
  assumes pe: "pending st" and ap: "apart st"
  shows "mines (extract_at (length (knowledge st) - 1) st) \<inter>
         safes (extract_at (length (knowledge st) - 1) st) = {}"
proof -
  let ?K = "knowledge st"
  let ?i = "length ?K - 1"
  have ne: "?K \<noteq> []" using pe by (simp add: pending_def)
  then have s: "?K ! ?i = last ?K" by (simp add: last_conv_nth)
  have i: "?i < length ?K" using ne by simp
  let ?A = "known_mines (last ?K)"
  let ?st1 = "mark_mines ?A st"
  let ?L1 = "mines_out ?A (last ?K)"
  have fa: "finite ?A" by (rule known_mines_finite)
  have km: "knowledge ?st1 = map (mines_out ?A) ?K" by (simp add: mark_mines_eq [OF fa])
  have l1: "knowledge ?st1 ! ?i = ?L1"
    unfolding km using nth_map [OF i, of "mines_out ?A"] s by simp
  let ?B = "set (sorted_list_of_set (known_safes ?L1))"
  have ex: "extract_at ?i st = mark_safes (known_safes ?L1) ?st1"
    by (simp only: extract_at_alt s l1)
  have m: "mines (extract_at ?i st) = mines st \<union> ?A"
    unfolding ex by (simp add: mark_safes_def fold_mark_safe mark_mines_eq [OF fa])
  have sf: "safes (extract_at ?i st) = safes st \<union> ?B"
    unfolding ex by (simp add: mark_safes_def fold_mark_safe mark_mines_eq [OF fa])
  have a: "?A \<subseteq> cells (last ?K)" by (rule known_mines_subset)
  have "?B \<subseteq> known_safes ?L1" by (rule set_sorted_list_subset)
  then have b: "?B \<subseteq> cells (last ?K) - ?A"
    using known_safes_subset [of ?L1] by (auto simp: mines_out_def)
  have d: "mines st \<inter> safes st = {}" using ap by (simp add: apart_def)
  from ap ne consider
      (free) "cells (last ?K) \<inter> (mines st \<union> safes st) = {}"
    | (safe) "count (last ?K) = 0" "cells (last ?K) \<subseteq> safes st"
    | (mine) "count (last ?K) \<noteq> 0" "cells (last ?K) \<subseteq> mines st"
    by (auto simp: apart_def)
  then show ?thesis
  proof cases
    case free
    then show ?thesis unfolding m sf using a b d by auto
  next
    case safe
    then have "?A = {}" by (simp add: known_mines_def)
    then show ?thesis unfolding m sf using b safe(2) d by auto
  next
    case mine
    have "?B = {}"
    proof (cases "?A = cells (last ?K)")
      case True
      then show ?thesis using b by auto
    next
      case False
      then have e: "?A = {}" by (auto simp: known_mines_def split: if_splits)
      then have "?L1 = last ?K" by (simp add: mines_out_empty)
      then have "known_safes ?L1 = {}" using mine(1) by (simp add: known_safes_def)
      then show ?thesis by simp
    qed
    then show ?thesis unfolding m sf using a mine(2) d by auto
  qed
qed

lemma apart_extract_all:
  assumes "pending st" "apart st"
  shows "mines (extract_all st) \<inter> safes (extract_all st) = {}"
proof -
  let ?n = "length (knowledge st)"
  let ?st1 = "fold extract_at [0..<?n - 1] st"
  have ne: "?n \<noteq> 0" using assms by (simp add: pending_def)
  then have "[0..<?n] = [0..<?n - 1] @ [?n - 1]"
    by (metis Suc_diff_1 not_gr_zero upt_Suc_append zero_le)
  then have "extract_all st = extract_at (?n - 1) ?st1"
    by (simp add: extract_all_def)
  moreover have "pending ?st1" "apart ?st1" "length (knowledge ?st1) = ?n"
    using apart_prefix [OF assms] by simp_all
  ultimately show ?thesis using apart_extract_last [of ?st1] by simp
qed

lemma apart_purged: "purged st \<Longrightarrow> mines st \<inter> safes st = {} \<Longrightarrow> apart st"
  by (cases "knowledge st = []") (auto simp: apart_def purged_def)

lemma apart_closure_pass:
  assumes "pending st \<and> apart st"
  shows "pending (fst (closure_pass st)) \<and> apart (fst (closure_pass st))"
    and "purged (fst (closure_pass st)) \<and>
         mines (fst (closure_pass st)) \<inter> safes (fst (closure_pass st)) = {}"
proof -
  have p: "purged (fst (closure_pass st))" "pending (fst (closure_pass st))"
    using assms by (simp_all add: pending_closure_pass)
  have d: "mines (fst (closure_pass st)) \<inter> safes (fst (closure_pass st)) = {}"
    using apart_extract_all [of st] assms by (simp add: closure_pass_fst)
  show "pending (fst (closure_pass st)) \<and> apart (fst (closure_pass st))"
    using p d by (simp add: apart_purged)
  show "purged (fst (closure_pass st)) \<and>
        mines (fst (closure_pass st)) \<inter> safes (fst (closure_pass st)) = {}"
    using p d by simp
qed

lemma observe_apart:
  assumes pu: "purged st" and d: "mines st \<inter> safes st = {}" and c: "c \<notin> mines st"
  shows "apart (observe st c n)"
proof -
  define st1 where "st1 = mark_safe c (st\<lparr>moves_made := insert c (moves_made st)\<rparr>)"
  define nb where "nb = nbrs st c - safes st1 - mines st1"
  define k where "k = n - int (card (nbrs st c \<inter> mines st1))"
  define st2 where "st2 = (if k = 0 then mark_safes nb st1 else st1)"
  define st3 where "st3 = (if k = int (card nb) \<and> k > 0 then mark_mines nb st2 else st2)"
  have e: "observe st c n = st3\<lparr>knowledge := knowledge st3 @ [Sentence nb k]\<rparr>"
    by (simp add: observe_eq Let_def st3_def st2_def k_def nb_def st1_def)
  have d1: "mines st1 \<inter> safes st1 = {}" using d c by (auto simp: st1_def mark_safe_def)
  have fin: "finite nb" by (simp add: nb_def finite_nbrs)
  have fresh: "nb \<inter> (mines st1 \<union> safes st1) = {}" by (auto simp: nb_def)
  consider (safe) "k = 0" | (mine) "k \<noteq> 0" "k = int (card nb)" "k > 0"
    | (none) "k \<noteq> 0" "\<not> (k = int (card nb) \<and> k > 0)" by blast
  then show ?thesis unfolding e
  proof cases
    case safe
    then have s3: "st3 = mark_safes nb st1" by (simp add: st3_def st2_def)
    show "apart (st3\<lparr>knowledge := knowledge st3 @ [Sentence nb k]\<rparr>)"
      unfolding s3 using safe d1 fresh
      by (auto simp: apart_def mark_safes_eq [OF fin] Sentence_def)
  next
    case mine
    then have s3: "st3 = mark_mines nb st1" by (simp add: st3_def st2_def)
    show "apart (st3\<lparr>knowledge := knowledge st3 @ [Sentence nb k]\<rparr>)"
      unfolding s3 using mine d1 fresh
      by (auto simp: apart_def mark_mines_eq [OF fin] Sentence_def)
  next
    case none
    then have s3: "st3 = st1" by (auto simp: st3_def st2_def)
    show "apart (st3\<lparr>knowledge := knowledge st3 @ [Sentence nb k]\<rparr>)"
      unfolding s3 using d1 fresh by (auto simp: apart_def Sentence_def)
  qed
qed

lemma apart_add_knowledge:
  assumes "purged st" "mines st \<inter> safes st = {}" "c \<notin> mines st"
      and "add_knowledge st c n = Some st'"
  shows "purged st' \<and> mines st' \<inter> safes st' = {}"
proof (rule closure_loop_rule [where P = "\<lambda>st. pending st \<and> apart st"])
  show "closure_loop (observe st c n) = Some st'" using assms(4) by (simp add: add_knowledge_def)
  show "pending (observe st c n) \<and> apart (observe st c n)"
    using assms(1-3) by (simp add: observe_pending observe_apart)
next
  fix st :: ai assume "pending st \<and> apart st"
  then show "pending (fst (closure_pass st)) \<and> apart (fst (closure_pass st))"
    by (rule apart_closure_pass(1))
next
  fix st :: ai assume "pending st \<and> apart st"
  then show "purged (fst (closure_pass st)) \<and>
             mines (fst (closure_pass st)) \<inter> safes (fst (closure_pass st)) = {}"
    by (rule apart_closure_pass(2))
qed

lemma apart_add_all:
  "purged st \<Longrightarrow> mines st \<inter> safes st = {} \<Longrightarrow> opens_no_mine st obs \<Longrightarrow>
   add_all st obs = Some st' \<Longrightarrow> mines st' \<inter> safes st' = {}"
proof (induction obs arbitrary: st)
  case Nil
  then show ?case by simp
next
  case (Cons ob obs)
  obtain c n where o: "ob = (c, n)" by (cases ob)
  from Cons.prems(4) obtain st1 where
    1: "add_knowledge st c n = Some st1" and 2: "add_all st1 obs = Some st'"
    by (auto simp: o split: option.splits)
  have c: "c \<notin> mines st" and 3: "opens_no_mine st1 obs"
    using Cons.prems(3) 1 by (simp_all add: o)
  have "purged st1 \<and> mines st1 \<inter> safes st1 = {}"
    using Cons.prems(1,2) c 1 by (rule apart_add_knowledge)
  then show ?case using 3 2 Cons.IH by blast
qed

text \<open>
  C6. The two sets are not disjoint for every sequence of inputs: on the row of two cells
  the first call confirms \<open>(0, 1)\<close> as a mine, the second call opens that cell, and it
  returns with \<open>(0, 1)\<close> both a confirmed mine and a confirmed safe cell.
\<close>

theorem confirmed_sets_overlap:
  "add_all (init_ai 1 2) row2_obs = Some row2_final \<and>
   (0, 1) \<in> mines row2_final \<inter> safes row2_final"
  by code_simp

text \<open>
  C6, amended. For every sequence of calls, with any cells and any counts, in which no
  call opens a cell that is a confirmed mine when the call is made, the confirmed mines
  and the confirmed safe cells are disjoint after every call that returns.
\<close>

theorem confirmed_sets_disjoint:
  assumes "opens_no_mine (init_ai h w) obs"
      and "add_all (init_ai h w) obs = Some st"
  shows "mines st \<inter> safes st = {}"
  by (rule apart_add_all [OF _ _ assms]) (simp_all add: purged_def init_ai_def)

theorem confirmed_sets_disjoint_witness:
  "opens_no_mine (init_ai 3 3) corner33_obs \<and>
   add_all (init_ai 3 3) corner33_obs = Some corner33_final \<and>
   mines corner33_final \<inter> safes corner33_final = {}"
proof -
  have h1: "opens_no_mine (init_ai 3 3) corner33_obs" by code_simp
  have h2: "add_all (init_ai 3 3) corner33_obs = Some corner33_final" by code_simp
  from confirmed_sets_disjoint [OF h1 h2] h1 h2 show ?thesis by simp
qed

section \<open>A count driven below zero\<close>

text \<open>
  C7. The mutators can drive a count below zero although every cell they are given has
  the status it is resolved with. After the corner \<open>(0, 0)\<close> was opened with the count
  1, the knowledge base holds \<open>{(0, 1), (1, 0), (1, 1)} = 1\<close>, which is in range. Opening
  \<open>(0, 2)\<close> with the count 3 broadcasts \<open>(0, 2)\<close> as safe and \<open>(0, 1)\<close>, \<open>(1, 1)\<close>,
  \<open>(1, 2)\<close> as mines, which is their status in the layout with exactly these three
  mines, and leaves the sentence \<open>{(1, 0)} = -1\<close>.
\<close>

theorem count_driven_negative:
  "add_knowledge (init_ai 3 3) (0, 0) 1 = Some corner33_once \<and>
   list_all (\<lambda>s. 0 \<le> count s \<and> count s \<le> int (card (cells s))) (knowledge corner33_once) \<and>
   proven {(0, 1), (1, 1), (1, 2)} (AsSafe (0, 2)) \<and>
   proven {(0, 1), (1, 1), (1, 2)} (AsMine (0, 1)) \<and>
   proven {(0, 1), (1, 1), (1, 2)} (AsMine (1, 1)) \<and>
   proven {(0, 1), (1, 1), (1, 2)} (AsMine (1, 2)) \<and>
   map count (knowledge (fold resolve
      [AsSafe (0, 2), AsMine (0, 1), AsMine (1, 1), AsMine (1, 2)] corner33_once)) = [- 1] \<and>
   add_knowledge corner33_once (0, 2) 3 = Some corner33_final \<and>
   map cells (knowledge corner33_final) = [{(1, 0)}, {}] \<and>
   map count (knowledge corner33_final) = [- 1, 0]"
  by code_simp

section \<open>Subset pairs when the loop returns\<close>




end
